theory Spec2Isabelle
  imports Complex_Main "HOL-Library.AList" "HOL-Library.Product_Lexorder" "HOL-Library.Multiset"
begin

section \<open>Strings and dates of the JavaScript runtime\<close>

text \<open>
  A JavaScript string is a sequence of UTF-16 code units; a code unit is modelled by its
  number. \<open>str\<close> turns an ASCII literal into such a sequence.
\<close>

type_synonym jsstring = "nat list"

definition str :: "string \<Rightarrow> jsstring" where
  "str s = map of_char s"

text \<open>
  A \<open>Date\<close> is modelled by the pair of its local calendar month, counted as
  \<open>12 * getFullYear + getMonth\<close>, and the milliseconds elapsed since that month began
  (less than the length of the month, so that the pair of an instant is unique).
  The numeric value of a \<open>Date\<close> (\<open>getTime\<close>, used by \<open><\<close>, \<open>>=\<close>, \<open>a - b\<close> and the
  deduplication key) orders dates as the lexicographic order orders these pairs.
  \<open>new Date(year, month)\<close> is the first instant of a month; a month outside 0..11 carries
  into the year, and a year from 0 to 99 stands for 1900 + year.
  An invalid date (\<open>NaN\<close>) can only arise inside the parsers, where it is the value
  \<open>None\<close> of \<open>date option\<close>; both parsers check for it before they build a period,
  so the dates of a period are valid.
\<close>

type_synonym date = "int \<times> nat"

definition newDate :: "int \<Rightarrow> int \<Rightarrow> date" where
  "newDate y m = ((if 0 \<le> y \<and> y \<le> 99 then 1900 + y else y) * 12 + m, 0)"

definition getFullYear :: "date \<Rightarrow> int" where
  "getFullYear d = fst d div 12"

definition getMonth :: "date \<Rightarrow> int" where
  "getMonth d = fst d mod 12"

section \<open>Employment periods\<close>

text \<open>
  The object that both parsers build. \<open>contextText\<close> is the field \<open>context\<close> of the
  source; \<open>jobTitle\<close> and \<open>company\<close> are a string or \<open>null\<close>.
\<close>

record period =
  startDate :: date
  endDate :: date
  duration :: int
  originalText :: jsstring
  contextText :: jsstring
  jobTitle :: "jsstring option"
  company :: "jsstring option"

datatype error = TypeError

text \<open>Truthiness of a value that is a string or \<open>null\<close>: the empty string is falsy.\<close>

definition truthy :: "jsstring option \<Rightarrow> bool" where
  "truthy s = (case s of None \<Rightarrow> False | Some t \<Rightarrow> t \<noteq> [])"

text \<open>\<open>x || "unknown"\<close>\<close>

definition orUnknown :: "jsstring option \<Rightarrow> jsstring" where
  "orUnknown s = (if truthy s then the s else str ''unknown'')"

text \<open>\<open>calculateDuration\<close>, lines 1017 to 1021.\<close>

definition calculateDuration :: "date \<Rightarrow> date \<Rightarrow> int" where
  "calculateDuration s e =
     (let yearDiff = getFullYear e - getFullYear s;
          monthDiff = getMonth e - getMonth s
      in yearDiff * 12 + monthDiff)"

section \<open>The Deduplicator\<close>

text \<open>
  \<open>deduplicateEmploymentPeriods\<close>, lines 892 to 962 of \<open>src/ats-checker.js\<close>.
  Step 1 keys a \<open>Map\<close> by the string \<open>`${start.getTime()}-${end.getTime()}-${title || "unknown"}`\<close>.
  Two such strings are equal exactly when the two numbers and the title part are, so the
  key is modelled by the triple. A \<open>Map\<close> keeps its keys in insertion order and \<open>set\<close>
  on a present key replaces the value in place: an association list with
  \<open>AList.update\<close>.
\<close>

type_synonym periodKey = "date \<times> date \<times> jsstring"

definition periodKey :: "period \<Rightarrow> periodKey" where
  "periodKey p = (startDate p, endDate p, orUnknown (jobTitle p))"

definition uniqueStep :: "(periodKey \<times> period) list \<Rightarrow> period \<Rightarrow> (periodKey \<times> period) list" where
  "uniqueStep m p =
     (case map_of m (periodKey p) of
        Some existing \<Rightarrow>
          if (\<not> truthy (jobTitle existing) \<or> \<not> truthy (company existing))
             \<and> (truthy (jobTitle p) \<and> truthy (company p))
          then AList.update (periodKey p) p m else m
      | None \<Rightarrow> AList.update (periodKey p) p m)"

definition uniqueByDates :: "period list \<Rightarrow> (periodKey \<times> period) list" where
  "uniqueByDates periods = foldl uniqueStep [] periods"

text \<open>
  Step 2 groups into the plain object \<open>periodsByCompany = {}\<close>. Reading a property that
  the object does not own falls through to \<open>Object.prototype\<close>: for the names below
  the read is truthy, the array is not created, and \<open>.push\<close> on the inherited value
  raises a \<open>TypeError\<close>.
\<close>

definition objectPrototypeKeys :: "jsstring list" where
  "objectPrototypeKeys = map str
     [''constructor'', ''__defineGetter__'', ''__defineSetter__'', ''hasOwnProperty'',
      ''__lookupGetter__'', ''__lookupSetter__'', ''isPrototypeOf'', ''propertyIsEnumerable'',
      ''toString'', ''valueOf'', ''__proto__'', ''toLocaleString'']"

definition companyKey :: "period \<Rightarrow> jsstring" where
  "companyKey p = orUnknown (company p)"

definition groupStep :: "(jsstring \<times> period list) list \<Rightarrow> period \<Rightarrow> error + (jsstring \<times> period list) list" where
  "groupStep obj p =
     (let c = companyKey p in
      case map_of obj c of
        Some arr \<Rightarrow> Inr (AList.update c (arr @ [p]) obj)
      | None \<Rightarrow> if c \<in> set objectPrototypeKeys then Inl TypeError
                else Inr (AList.update c [p] obj))"

fun groupAll :: "(jsstring \<times> period list) list \<Rightarrow> period list \<Rightarrow> error + (jsstring \<times> period list) list" where
  "groupAll obj [] = Inr obj"
| "groupAll obj (p # ps) =
     (case groupStep obj p of Inl e \<Rightarrow> Inl e | Inr obj' \<Rightarrow> groupAll obj' ps)"

text \<open>
  \<open>Object.values\<close> lists the properties whose names are array indices (canonical
  decimal numerals below \<open>2^32 - 1\<close>) first, in ascending numeric order, and then the
  other names in the order of their creation.
\<close>

definition isDigit :: "nat \<Rightarrow> bool" where
  "isDigit c = (48 \<le> c \<and> c \<le> 57)"

definition decimalValue :: "jsstring \<Rightarrow> nat" where
  "decimalValue s = foldl (\<lambda>n c. 10 * n + (c - 48)) 0 s"

definition isArrayIndex :: "jsstring \<Rightarrow> bool" where
  "isArrayIndex s =
     (s \<noteq> [] \<and> list_all isDigit s \<and> (s = [48] \<or> hd s \<noteq> 48) \<and> decimalValue s < 4294967295)"

definition objectValues :: "(jsstring \<times> 'v) list \<Rightarrow> 'v list" where
  "objectValues obj =
     map snd (sort_key (\<lambda>kv. decimalValue (fst kv)) (filter (\<lambda>kv. isArrayIndex (fst kv)) obj))
     @ map snd (filter (\<lambda>kv. \<not> isArrayIndex (fst kv)) obj)"

text \<open>
  Within a company: a sort by duration, longest first, and then the scan that keeps the
  entries not contained in the entry at any other index. \<open>Array.prototype.sort\<close> is
  stable (since ECMAScript 2019; the project asks for Node 14 or later), as \<open>sort_key\<close>
  is.
\<close>

definition containedIn :: "period \<Rightarrow> period \<Rightarrow> bool" where
  "containedIn current other =
     (startDate current \<ge> startDate other \<and> endDate current \<le> endDate other)"

definition isContained :: "period list \<Rightarrow> nat \<Rightarrow> bool" where
  "isContained cps i =
     list_ex (\<lambda>j. j \<noteq> i \<and> containedIn (cps ! i) (cps ! j)) [0..<length cps]"

definition processCompany :: "period list \<Rightarrow> period list" where
  "processCompany companyPeriods =
     (if length companyPeriods \<le> 1 then companyPeriods
      else let sorted = sort_key (\<lambda>p. - duration p) companyPeriods
           in map (\<lambda>i. sorted ! i) (filter (\<lambda>i. \<not> isContained sorted i) [0..<length sorted]))"

definition deduplicateEmploymentPeriods :: "period list \<Rightarrow> error + period list" where
  "deduplicateEmploymentPeriods periods =
     (if length periods \<le> 1 then Inr periods
      else case groupAll [] (map snd (uniqueByDates periods)) of
             Inl e \<Rightarrow> Inl e
           | Inr obj \<Rightarrow> Inr (concat (map processCompany (objectValues obj))))"

section \<open>The Interval Aggregator\<close>

text \<open>
  \<open>calculateTotalExperience\<close>, lines 1024 to 1047: the loop over the periods sorted by
  start date, with the running end date and the running total as its state.
\<close>

fun totalLoop :: "period list \<Rightarrow> date \<Rightarrow> int \<Rightarrow> int" where
  "totalLoop [] currentEndDate totalMonths = totalMonths"
| "totalLoop (p # ps) currentEndDate totalMonths =
     (if startDate p > currentEndDate
      then totalLoop ps (endDate p) (totalMonths + calculateDuration (startDate p) (endDate p))
      else if endDate p > currentEndDate
      then totalLoop ps (endDate p) (totalMonths + calculateDuration currentEndDate (endDate p))
      else totalLoop ps currentEndDate totalMonths)"

definition calculateTotalExperience :: "period list \<Rightarrow> int" where
  "calculateTotalExperience employmentPeriods =
     (case sort_key startDate employmentPeriods of
        [] \<Rightarrow> 0
      | first # rest \<Rightarrow> totalLoop (first # rest) (startDate first) 0)"

section \<open>The Progression Analyzer\<close>

text \<open>
  \<open>analyzeCareerProgression\<close>, lines 1076 to 1168. The average duration is a quotient
  of integers, kept exact here, where the runtime rounds it to a double (it gives
  1.3333333333333333 for 4/3); no property below reads this field. The test \<open>shortTermJobs / length >= 0.5\<close> of the source
  is written \<open>2 * shortTermJobs \<ge> length\<close>, which is the same for counts.
\<close>

record progressionResult =
  hasProgression :: bool
  pattern :: jsstring
  averageJobDuration :: rat

definition startsWith :: "jsstring \<Rightarrow> jsstring \<Rightarrow> bool" where
  "startsWith s t = (take (length t) s = t)"

fun includesStr :: "jsstring \<Rightarrow> jsstring \<Rightarrow> bool" where
  "includesStr [] t = (t = [])"
| "includesStr (c # cs) t = (startsWith (c # cs) t \<or> includesStr cs t)"

definition titleLevels :: "(jsstring \<times> int) list" where
  "titleLevels =
     [(str ''junior'', 1), (str '''', 2), (str ''senior'', 3), (str ''lead'', 4),
      (str ''principal'', 5), (str ''manager'', 5), (str ''director'', 6), (str ''vp'', 7),
      (str ''cto'', 8)]"

definition levelScore :: "jsstring \<Rightarrow> int" where
  "levelScore title =
     foldl (\<lambda>score (levelTitle, s). if includesStr title levelTitle then max score s else score)
       2 titleLevels"

record titleEntry =
  title :: jsstring
  level :: int
  date :: date

definition titleProgression :: "period list \<Rightarrow> titleEntry list" where
  "titleProgression ps =
     sort_key date
       (map (\<lambda>p. \<lparr>title = the (jobTitle p), level = levelScore (the (jobTitle p)), date = startDate p\<rparr>)
          (filter (\<lambda>p. truthy (jobTitle p)) ps))"

fun countChanges :: "titleEntry list \<Rightarrow> nat \<times> nat \<Rightarrow> nat \<times> nat" where
  "countChanges (a # b # rest) (increases, decreases) =
     countChanges (b # rest)
       (if level b > level a then (increases + 1, decreases)
        else if level b < level a then (increases, decreases + 1)
        else (increases, decreases))"
| "countChanges _ r = r"

definition jobHoppingPattern :: "period list \<Rightarrow> bool" where
  "jobHoppingPattern ps =
     (let shortTermJobs = length (filter (\<lambda>p. duration p < 12) ps)
      in shortTermJobs \<ge> 3 \<or> (length ps \<ge> 3 \<and> 2 * shortTermJobs \<ge> length ps))"

definition analyzeCareerProgression :: "period list \<Rightarrow> progressionResult" where
  "analyzeCareerProgression ps =
     (if length ps \<le> 1
      then \<lparr>hasProgression = False, pattern = str ''Insufficient data'',
            averageJobDuration = (case ps of [p] \<Rightarrow> of_int (duration p) | _ \<Rightarrow> 0)\<rparr>
      else
        let totalDuration = foldl (\<lambda>sum p. sum + duration p) 0 ps;
            average = of_int totalDuration / of_nat (length ps);
            titlesAvailable = length (filter (\<lambda>p. truthy (jobTitle p)) ps);
            (increases, decreases) =
               (if titlesAvailable \<ge> 2 then countChanges (titleProgression ps) (0, 0) else (0, 0));
            progression = (titlesAvailable \<ge> 2 \<and> increases > decreases);
            base = (if titlesAvailable \<ge> 2 \<and> increases > decreases then str ''Upward''
                    else if titlesAvailable \<ge> 2 \<and> increases < decreases then str ''Varied''
                    else str ''Stable'')
        in \<lparr>hasProgression = progression,
            pattern = (if jobHoppingPattern ps then base @ str '', Frequent changes'' else base),
            averageJobDuration = average\<rparr>)"


section \<open>Regular expressions of the JavaScript runtime\<close>

text \<open>
  The regular expressions of the source are written as terms of \<open>regex\<close> and run by a
  backtracking matcher that tries the alternatives in the order the runtime does: the
  branches of \<open>|\<close> from left to right, a greedy quantifier the longest repetition first,
  a lazy one the shortest first. A character class is a list of inclusive ranges of code
  units; with the flag \<open>i\<close> a letter stands for both of its cases (without the flag
  \<open>u\<close> the runtime never matches an ASCII letter against a code unit outside ASCII).
\<close>

datatype regex =
    Cls "(nat \<times> nat) list"
  | NotCls "(nat \<times> nat) list"
  | Eps
  | Seq regex regex
  | Alt regex regex
  | Rep nat "nat option" bool regex
  | Grp nat regex
  | Look regex
  | Bol
  | Eol

text \<open>
  The state of a match: the index reached, the input from there on, and the groups
  captured so far (the latest capture of a group first).
\<close>

record mstate =
  pos :: nat
  rest :: jsstring
  caps :: "(nat \<times> jsstring) list"

definition inRanges :: "nat \<Rightarrow> (nat \<times> nat) list \<Rightarrow> bool" where
  "inRanges c rs = list_ex (\<lambda>r. fst r \<le> c \<and> c \<le> snd r) rs"

text \<open>
  A quantifier \<open>{mn,mx}\<close> around a matcher \<open>f\<close>, followed by the continuation \<open>k\<close>.
  Once the minimum is reached, a repetition that consumes nothing is rejected, as the
  runtime does. The first argument bounds the number of repetitions; with the bound
  \<open>mn + length (rest st)\<close> that \<open>rmatch\<close> passes it is never the reason a repetition
  stops, since every repetition beyond the minimum consumes a code unit.
\<close>

fun rep :: "((mstate \<Rightarrow> mstate option) \<Rightarrow> mstate \<Rightarrow> mstate option) \<Rightarrow> nat \<Rightarrow> nat \<Rightarrow> nat option
    \<Rightarrow> bool \<Rightarrow> (mstate \<Rightarrow> mstate option) \<Rightarrow> mstate \<Rightarrow> mstate option" where
  "rep f 0 mn mx g k st = (if mn = 0 then k st else None)"
| "rep f (Suc n) mn mx g k st =
     (if mx = Some 0 then k st
      else if 0 < mn
      then f (rep f n (mn - 1) (map_option (\<lambda>m. m - 1) mx) g k) st
      else if g
      then (case f (\<lambda>st'. if pos st' = pos st then None
                           else rep f n 0 (map_option (\<lambda>m. m - 1) mx) g k st') st of
              Some r \<Rightarrow> Some r
            | None \<Rightarrow> k st)
      else (case k st of
              Some r \<Rightarrow> Some r
            | None \<Rightarrow> f (\<lambda>st'. if pos st' = pos st then None
                                else rep f n 0 (map_option (\<lambda>m. m - 1) mx) g k st') st))"

primrec rmatch :: "regex \<Rightarrow> (mstate \<Rightarrow> mstate option) \<Rightarrow> mstate \<Rightarrow> mstate option" where
  "rmatch (Cls rs) k st =
     (case rest st of
        [] \<Rightarrow> None
      | c # cs \<Rightarrow> if inRanges c rs then k (st\<lparr>pos := Suc (pos st), rest := cs\<rparr>) else None)"
| "rmatch (NotCls rs) k st =
     (case rest st of
        [] \<Rightarrow> None
      | c # cs \<Rightarrow> if inRanges c rs then None else k (st\<lparr>pos := Suc (pos st), rest := cs\<rparr>))"
| "rmatch Eps k st = k st"
| "rmatch (Seq a b) k st = rmatch a (rmatch b k) st"
| "rmatch (Alt a b) k st = (case rmatch a k st of Some r \<Rightarrow> Some r | None \<Rightarrow> rmatch b k st)"
| "rmatch (Rep mn mx g a) k st = rep (rmatch a) (mn + length (rest st)) mn mx g k st"
| "rmatch (Grp n a) k st =
     rmatch a (\<lambda>st'. k (st'\<lparr>caps := (n, take (pos st' - pos st) (rest st)) # caps st'\<rparr>)) st"
| "rmatch (Look a) k st =
     (case rmatch a Some st of None \<Rightarrow> None | Some st' \<Rightarrow> k (st\<lparr>caps := caps st'\<rparr>))"
| "rmatch Bol k st = (if pos st = 0 then k st else None)"
| "rmatch Eol k st = (if rest st = [] then k st else None)"

text \<open>
  \<open>String.prototype.match\<close> with a regular expression without the flag \<open>g\<close>: the first
  index from which the expression matches, with the matched text and the groups; a group
  that took no part in the match is absent (\<open>undefined\<close>).
\<close>

record jsmatch =
  index :: nat
  whole :: jsstring
  groups :: "(nat \<times> jsstring) list"

fun searchFrom :: "regex \<Rightarrow> nat \<Rightarrow> jsstring \<Rightarrow> jsmatch option" where
  "searchFrom r i [] =
     (case rmatch r Some \<lparr>pos = i, rest = [], caps = []\<rparr> of
        None \<Rightarrow> None
      | Some st \<Rightarrow> Some \<lparr>index = i, whole = [], groups = caps st\<rparr>)"
| "searchFrom r i (c # cs) =
     (case rmatch r Some \<lparr>pos = i, rest = c # cs, caps = []\<rparr> of
        None \<Rightarrow> searchFrom r (Suc i) cs
      | Some st \<Rightarrow> Some \<lparr>index = i, whole = take (pos st - i) (c # cs), groups = caps st\<rparr>)"

definition matchRegex :: "regex \<Rightarrow> jsstring \<Rightarrow> jsmatch option" where
  "matchRegex r s = searchFrom r 0 s"

definition matchGroup :: "jsmatch \<Rightarrow> nat \<Rightarrow> jsstring option" where
  "matchGroup m n = map_of (groups m) n"

text \<open>Building blocks: a literal, a literal under the flag \<open>i\<close>, and the classes used.\<close>

definition chr :: "char \<Rightarrow> regex" where
  "chr c = Cls [(of_char c, of_char c)]"

definition bothCases :: "nat \<Rightarrow> (nat \<times> nat) list" where
  "bothCases c =
     (if 97 \<le> c \<and> c \<le> 122 then [(c, c), (c - 32, c - 32)]
      else if 65 \<le> c \<and> c \<le> 90 then [(c, c), (c + 32, c + 32)]
      else [(c, c)])"

definition chri :: "char \<Rightarrow> regex" where
  "chri c = Cls (bothCases (of_char c))"

primrec lit :: "string \<Rightarrow> regex" where
  "lit [] = Eps"
| "lit (c # cs) = Seq (chr c) (lit cs)"

primrec liti :: "string \<Rightarrow> regex" where
  "liti [] = Eps"
| "liti (c # cs) = Seq (chri c) (liti cs)"

text \<open>\<open>\s\<close>: the white space and line terminator code units.\<close>

definition spaceRanges :: "(nat \<times> nat) list" where
  "spaceRanges =
     [(9, 13), (32, 32), (160, 160), (5760, 5760), (8192, 8202), (8232, 8233),
      (8239, 8239), (8287, 8287), (12288, 12288), (65279, 65279)]"

definition isSpace :: "nat \<Rightarrow> bool" where
  "isSpace c = inRanges c spaceRanges"

definition space :: regex where
  "space = Cls spaceRanges"

definition digit :: regex where
  "digit = Cls [(48, 57)]"

text \<open>\<open>[\s\S]\<close>, and \<open>.\<close>, which excludes the four line terminators.\<close>

definition anyUnit :: regex where
  "anyUnit = NotCls []"

definition dot :: regex where
  "dot = NotCls [(10, 10), (13, 13), (8232, 8233)]"

definition star :: "regex \<Rightarrow> regex" where
  "star r = Rep 0 None True r"

definition plus :: "regex \<Rightarrow> regex" where
  "plus r = Rep 1 None True r"

definition lazyPlus :: "regex \<Rightarrow> regex" where
  "lazyPlus r = Rep 1 None False r"

definition seqs :: "regex list \<Rightarrow> regex" where
  "seqs rs = foldr Seq rs Eps"

definition alts :: "regex \<Rightarrow> regex list \<Rightarrow> regex" where
  "alts r rs = foldr (\<lambda>a b. Alt a b) (butlast (r # rs)) (last (r # rs))"


section \<open>String helpers of the runtime\<close>

definition trim :: "jsstring \<Rightarrow> jsstring" where
  "trim s = rev (dropWhile isSpace (rev (dropWhile isSpace s)))"

text \<open>\<open>s.split(d)\<close> for a one-unit separator: never an empty array.\<close>

fun splitOn :: "nat \<Rightarrow> jsstring \<Rightarrow> jsstring list" where
  "splitOn d [] = [[]]"
| "splitOn d (c # cs) =
     (if c = d then [] # splitOn d cs
      else case splitOn d cs of t # ts \<Rightarrow> (c # t) # ts | [] \<Rightarrow> [[c]])"

text \<open>\<open>s.split(/\s+/)\<close>: a run of white space separates; never an empty array.\<close>

function splitSpaces :: "jsstring \<Rightarrow> jsstring list" where
  "splitSpaces [] = [[]]"
| "splitSpaces (c # cs) =
     (if isSpace c then [] # splitSpaces (dropWhile isSpace cs)
      else case splitSpaces cs of t # ts \<Rightarrow> (c # t) # ts | [] \<Rightarrow> [[c]])"
  by pat_completeness auto
termination
  by (relation "measure length") (auto simp: less_Suc_eq_le length_dropWhile_le)

text \<open>\<open>xs[i]\<close>: \<open>undefined\<close> (\<open>None\<close>) beyond the end.\<close>

definition elemAt :: "'a list \<Rightarrow> nat \<Rightarrow> 'a option" where
  "elemAt xs i = (if i < length xs then Some (xs ! i) else None)"

text \<open>
  \<open>toLowerCase\<close> on the ASCII letters. The source compares the result only with ASCII
  words, none of which a code unit outside ASCII can lower-case into.
\<close>

definition toLowerCase :: "jsstring \<Rightarrow> jsstring" where
  "toLowerCase s = map (\<lambda>c. if 65 \<le> c \<and> c \<le> 90 then c + 32 else c) s"

text \<open>
  \<open>parseInt\<close>: leading white space, a sign, then a hexadecimal numeral after \<open>0x\<close> or
  else the longest decimal prefix; \<open>NaN\<close> (\<open>None\<close>) when there is no digit, and for
  \<open>undefined\<close>. The value is exact, as the runtime's is below \<open>2^53\<close>; the source
  applies it to numerals of at most four digits.
\<close>

definition isHexDigit :: "nat \<Rightarrow> bool" where
  "isHexDigit c = (isDigit c \<or> (97 \<le> c \<and> c \<le> 102) \<or> (65 \<le> c \<and> c \<le> 70))"

definition hexValue :: "jsstring \<Rightarrow> nat" where
  "hexValue s =
     foldl (\<lambda>n c. 16 * n + (if isDigit c then c - 48 else if 97 \<le> c then c - 87 else c - 55)) 0 s"

definition parseUnsigned :: "jsstring \<Rightarrow> int option" where
  "parseUnsigned u =
     (if startsWith u [48, 120] \<or> startsWith u [48, 88]
      then (let ds = takeWhile isHexDigit (drop 2 u)
            in if ds = [] then None else Some (int (hexValue ds)))
      else (let ds = takeWhile isDigit u
            in if ds = [] then None else Some (int (decimalValue ds))))"

definition parseInt :: "jsstring option \<Rightarrow> int option" where
  "parseInt v =
     (case v of
        None \<Rightarrow> None
      | Some s \<Rightarrow>
          (let t = dropWhile isSpace s in
           if startsWith t [45] then map_option uminus (parseUnsigned (drop 1 t))
           else if startsWith t [43] then parseUnsigned (drop 1 t)
           else parseUnsigned t))"

text \<open>\<open>new Date(year, month)\<close> where an argument may be \<open>NaN\<close>: then the date is invalid.\<close>

definition newDateOpt :: "int option \<Rightarrow> int option \<Rightarrow> date option" where
  "newDateOpt y m =
     (case y of None \<Rightarrow> None | Some y' \<Rightarrow> (case m of None \<Rightarrow> None | Some m' \<Rightarrow> Some (newDate y' m')))"

section \<open>The Date Parser\<close>

text \<open>\<open>getMonthIndex\<close>, lines 965 to 974.\<close>

definition monthTable :: "(jsstring \<times> int) list" where
  "monthTable =
     [(str ''january'', 0), (str ''february'', 1), (str ''march'', 2), (str ''april'', 3),
      (str ''may'', 4), (str ''june'', 5), (str ''july'', 6), (str ''august'', 7),
      (str ''september'', 8), (str ''october'', 9), (str ''november'', 10), (str ''december'', 11),
      (str ''jan'', 0), (str ''feb'', 1), (str ''mar'', 2), (str ''apr'', 3), (str ''jun'', 5),
      (str ''jul'', 6), (str ''aug'', 7), (str ''sep'', 8), (str ''sept'', 8), (str ''oct'', 9),
      (str ''nov'', 10), (str ''dec'', 11)]"

text \<open>
  \<open>months[monthStr.toLowerCase()] || 0\<close>. On \<open>undefined\<close> the call of \<open>toLowerCase\<close>
  raises. A name that the table lacks but \<open>Object.prototype\<close> has yields an inherited
  function or object, which is not a number: the month is then \<open>NaN\<close> (\<open>None\<close>).
\<close>

definition getMonthIndex :: "jsstring option \<Rightarrow> error + int option" where
  "getMonthIndex monthStr =
     (case monthStr of
        None \<Rightarrow> Inl TypeError
      | Some s \<Rightarrow>
          (case map_of monthTable (toLowerCase s) of
             Some n \<Rightarrow> Inr (Some n)
           | None \<Rightarrow> if toLowerCase s \<in> set objectPrototypeKeys then Inr None else Inr (Some 0)))"

text \<open>
  The pattern of \<open>parseEmploymentEntry\<close>, under the flag \<open>i\<close>:
  \<^verbatim>\<open>((?:jan|feb|mar|apr|may|jun|jul|aug|sep|oct|nov|dec)[a-z]*\s+\d{4}|(?:\d{1,2}\/\d{4}))\<close>
  \<^verbatim>\<open>\s*(?:[-..to]*)\s*\<close> (the two dots stand for the en dash and the em dash)
  \<^verbatim>\<open>((?:jan|feb|mar|apr|may|jun|jul|aug|sep|oct|nov|dec)[a-z]*\s+\d{4}|(?:\d{1,2}\/\d{4})|present|current)\<close>
\<close>

definition monthPrefix :: regex where
  "monthPrefix =
     alts (liti ''jan'')
       [liti ''feb'', liti ''mar'', liti ''apr'', liti ''may'', liti ''jun'', liti ''jul'',
        liti ''aug'', liti ''sep'', liti ''oct'', liti ''nov'', liti ''dec'']"

definition namedDate :: regex where
  "namedDate = seqs [monthPrefix, star (Cls [(97, 122), (65, 90)]), plus space, Rep 4 (Some 4) True digit]"

definition numericDate :: regex where
  "numericDate = seqs [Rep 1 (Some 2) True digit, chr CHR ''/'', Rep 4 (Some 4) True digit]"

text \<open>\<open>[-\<dots>to]\<close> under the flag \<open>i\<close>: hyphen, en dash, em dash, t, T, o, O.\<close>

definition separatorUnit :: regex where
  "separatorUnit = Cls [(45, 45), (8211, 8211), (8212, 8212), (116, 116), (84, 84), (111, 111), (79, 79)]"

definition dateRangeRegex :: regex where
  "dateRangeRegex =
     seqs [Grp 1 (Alt namedDate numericDate), star space, star separatorUnit, star space,
           Grp 2 (alts namedDate [numericDate, liti ''present'', liti ''current''])]"

definition numericDateOnly :: regex where
  "numericDateOnly = seqs [Bol, numericDate, Eol]"

definition presentRegex :: regex where
  "presentRegex = Alt (liti ''present'') (liti ''current'')"

definition testRegex :: "regex \<Rightarrow> jsstring \<Rightarrow> bool" where
  "testRegex r s = (matchRegex r s \<noteq> None)"

text \<open>The two ways the source reads one date: \<open>MM/YYYY\<close>, and a month name with a year.\<close>

definition readNumericDate :: "jsstring \<Rightarrow> date option" where
  "readNumericDate s =
     (let parts = splitOn 47 s; month = elemAt parts 0; year = elemAt parts 1
      in newDateOpt (parseInt year) (map_option (\<lambda>m. m - 1) (parseInt month)))"

definition readNamedDate :: "jsstring \<Rightarrow> error + date option" where
  "readNamedDate s =
     (let parts = splitSpaces (trim s) in
      case getMonthIndex (elemAt parts 0) of
        Inl e \<Rightarrow> Inl e
      | Inr month \<Rightarrow> Inr (newDateOpt (parseInt (elemAt parts 1)) month))"

text \<open>
  \<open>parseEmploymentEntry\<close>, lines 1171 to 1222, with the clock's reading \<open>now\<close> as a parameter. \<open>Inr None\<close> is
  the \<open>null\<close> of the source; \<open>Inl\<close> stands for an exception.
\<close>

definition parseEmploymentEntry :: "date \<Rightarrow> jsstring \<Rightarrow> jsstring \<Rightarrow> jsstring \<Rightarrow> error + period option" where
  "parseEmploymentEntry now position companyName dateRange =
     (case matchRegex dateRangeRegex dateRange of
        None \<Rightarrow> Inr None
      | Some dateMatch \<Rightarrow>
          (case matchGroup dateMatch 1 of
             None \<Rightarrow> Inl TypeError
           | Some startDateStr \<Rightarrow>
               (let endDateStr = (if truthy (matchGroup dateMatch 2) then the (matchGroup dateMatch 2)
                                  else str ''present'') in
                case (if testRegex numericDateOnly startDateStr
                      then Inr (readNumericDate startDateStr)
                      else readNamedDate startDateStr) of
                  Inl e \<Rightarrow> Inl e
                | Inr startD \<Rightarrow>
                    (case (if testRegex presentRegex endDateStr then Inr (Some now)
                           else if testRegex numericDateOnly endDateStr
                           then Inr (readNumericDate endDateStr)
                           else if endDateStr \<noteq> [] then readNamedDate endDateStr
                           else Inr (Some now)) of
                       Inl e \<Rightarrow> Inl e
                     | Inr endD \<Rightarrow>
                         (case startD of
                            None \<Rightarrow> Inr None
                          | Some s \<Rightarrow>
                              (case endD of
                                 None \<Rightarrow> Inr None
                               | Some e \<Rightarrow>
                                   if s > e then Inr None
                                   else Inr (Some
                                     \<lparr>startDate = s, endDate = e, duration = calculateDuration s e,
                                      originalText = position @ str '' | '' @ companyName @ str '' | '' @ dateRange,
                                      contextText = position @ str '' at '' @ companyName @ str '' from '' @ dateRange,
                                      jobTitle = Some position, company = Some companyName\<rparr>)))))))"

section \<open>The Entry Extractor\<close>

text \<open>\<open>extractStructuredEmploymentEntries\<close>, lines 830 to 889.\<close>

text \<open>
  The pattern of the work-experience section, in its four parts: the heading, the run of
  colons and white space after it, the lazily growing section (group 1), and the
  lookahead that ends it.
\<close>

text \<open>
  \<^verbatim>\<open>(?:work\s+experience|employment|professional\s+experience|work\s+history)[:\s]+\<close>
  \<^verbatim>\<open>([\s\S]+?)(?=education|skills|certification|language|hobbies|\n\s*\n|$)\<close>, flag \<open>i\<close>.
\<close>

definition sectionHeading :: regex where
  "sectionHeading =
     alts (seqs [liti ''work'', plus space, liti ''experience''])
       [liti ''employment'',
        seqs [liti ''professional'', plus space, liti ''experience''],
        seqs [liti ''work'', plus space, liti ''history'']]"

definition headingTail :: regex where
  "headingTail = plus (Cls ((58, 58) # spaceRanges))"

definition sectionEnd :: regex where
  "sectionEnd =
     alts (liti ''education'')
       [liti ''skills'', liti ''certification'', liti ''language'', liti ''hobbies'',
        seqs [Cls [(10, 10)], star space, Cls [(10, 10)]],
        Eol]"

definition workSectionRegex :: regex where
  "workSectionRegex =
     seqs [sectionHeading, headingTail, Grp 1 (lazyPlus anyUnit), Look sectionEnd]"

text \<open>
  The three line formats:
  \<^verbatim>\<open>^(.+?)\s*\|\s*(.+?)\s*\|\s*(.+)$\<close>,
  \<^verbatim>\<open>^(.+?)\s+at\s+(.+?)\s*\((.+?)\)$\<close> with the flag \<open>i\<close>, and
  \<^verbatim>\<open>^(.+?),\s*(.+?),\s*(.+)$\<close>.
\<close>

definition pipeFormat :: regex where
  "pipeFormat =
     seqs [Bol, Grp 1 (lazyPlus dot), star space, chr CHR ''|'', star space,
           Grp 2 (lazyPlus dot), star space, chr CHR ''|'', star space, Grp 3 (plus dot), Eol]"

definition atFormat :: regex where
  "atFormat =
     seqs [Bol, Grp 1 (lazyPlus dot), plus space, liti ''at'', plus space,
           Grp 2 (lazyPlus dot), star space, chr CHR ''('', Grp 3 (lazyPlus dot), chr CHR '')'', Eol]"

definition commaFormat :: regex where
  "commaFormat =
     seqs [Bol, Grp 1 (lazyPlus dot), chr CHR '','', star space,
           Grp 2 (lazyPlus dot), chr CHR '','', star space, Grp 3 (plus dot), Eol]"

text \<open>
  One of the three blocks of the loop body: match the line, destructure the three
  groups, trim them and parse. \<open>Inr None\<close> means that the loop goes on to the next block.
\<close>

definition tryFormat :: "date \<Rightarrow> regex \<Rightarrow> jsstring \<Rightarrow> error + period option" where
  "tryFormat now format line =
     (case matchRegex format line of
        None \<Rightarrow> Inr None
      | Some m \<Rightarrow>
          (case matchGroup m 1 of
             None \<Rightarrow> Inl TypeError
           | Some position \<Rightarrow>
               (case matchGroup m 2 of
                  None \<Rightarrow> Inl TypeError
                | Some companyName \<Rightarrow>
                    (case matchGroup m 3 of
                       None \<Rightarrow> Inl TypeError
                     | Some dateRange \<Rightarrow>
                         parseEmploymentEntry now (trim position) (trim companyName) (trim dateRange)))))"

definition processLine :: "date \<Rightarrow> jsstring \<Rightarrow> error + period option" where
  "processLine now rawLine =
     (let line = trim rawLine in
      if startsWith line [45] \<or> startsWith line [8226] \<or> startsWith line [42] then Inr None
      else case tryFormat now pipeFormat line of
             Inl e \<Rightarrow> Inl e
           | Inr (Some entry) \<Rightarrow> Inr (Some entry)
           | Inr None \<Rightarrow>
               (case tryFormat now atFormat line of
                  Inl e \<Rightarrow> Inl e
                | Inr (Some entry) \<Rightarrow> Inr (Some entry)
                | Inr None \<Rightarrow> tryFormat now commaFormat line))"

fun entriesOfLines :: "date \<Rightarrow> jsstring list \<Rightarrow> period list \<Rightarrow> error + period list" where
  "entriesOfLines now [] entries = Inr entries"
| "entriesOfLines now (line # lines) entries =
     (case processLine now line of
        Inl e \<Rightarrow> Inl e
      | Inr None \<Rightarrow> entriesOfLines now lines entries
      | Inr (Some entry) \<Rightarrow> entriesOfLines now lines (entries @ [entry]))"

definition workSectionText :: "jsstring \<Rightarrow> jsstring option" where
  "workSectionText text =
     (case matchRegex workSectionRegex text of None \<Rightarrow> None | Some m \<Rightarrow> matchGroup m 1)"

definition extractStructuredEmploymentEntries :: "date \<Rightarrow> jsstring \<Rightarrow> error + period list" where
  "extractStructuredEmploymentEntries now text =
     (case matchRegex workSectionRegex text of
        None \<Rightarrow> Inr []
      | Some workSection \<Rightarrow>
          (case matchGroup workSection 1 of
             None \<Rightarrow> Inl TypeError
           | Some workText \<Rightarrow>
               entriesOfLines now
                 (filter (\<lambda>line. length (trim line) > 0) (splitOn 10 workText)) []))"

section \<open>The date patterns of the fallback scan\<close>

text \<open>
  When no structured entry is found, \<open>analyzeEmploymentHistory\<close> (lines 670 to 827) scans the text with four
  patterns and builds the two dates of each match in a chain of four branches. The
  patterns and that chain are modelled here; the scan itself (the loop over all matches,
  the context window and what is read from it) is not.
\<close>

definition monthNames :: "string list" where
  "monthNames =
     [''january'', ''february'', ''march'', ''april'', ''may'', ''june'', ''july'',
      ''august'', ''september'', ''october'', ''november'', ''december'',
      ''jan'', ''feb'', ''mar'', ''apr'', ''jun'', ''jul'', ''aug'', ''sep'', ''sept'', ''oct'',
      ''nov'', ''dec'']"

definition monthName :: regex where
  "monthName = alts (liti (hd monthNames)) (map liti (tl monthNames))"

definition rangeSeparator :: regex where
  "rangeSeparator = seqs [star space, star separatorUnit, star space]"


definition datePattern2 :: regex where
  "datePattern2 =
     seqs [Grp 1 monthName, plus space, Grp 2 (Rep 4 (Some 4) True digit), rangeSeparator,
           alts (seqs [Grp 3 monthName, plus space, Grp 4 (Rep 4 (Some 4) True digit)])
             [liti ''present'', liti ''current'']]"

definition datePattern3 :: regex where
  "datePattern3 =
     seqs [Grp 1 (Rep 4 (Some 4) True digit), rangeSeparator,
           alts (Grp 2 (Rep 4 (Some 4) True digit)) [liti ''present'', liti ''current'']]"

definition datePattern4 :: regex where
  "datePattern4 =
     seqs [alts (liti ''from'') [liti ''between'', liti ''since''], plus space,
           Grp 1 monthName, plus space, Grp 2 (Rep 4 (Some 4) True digit), star space,
           alts (liti ''to'') [liti ''until'', liti ''through'', Cls [(45, 45), (8211, 8211), (8212, 8212)]],
           star space,
           alts (seqs [Grp 3 monthName, plus space, Grp 4 (Rep 4 (Some 4) True digit)])
             [liti ''present'', liti ''current'']]"







section \<open>Properties of period lists\<close>

text \<open>
  The month of a date as one number, and the total of the durations of a list as
  \<open>calculateDuration\<close> computes each.
\<close>

definition monthIndex :: "date \<Rightarrow> int" where
  "monthIndex d = getFullYear d * 12 + getMonth d"

definition sumDurations :: "period list \<Rightarrow> int" where
  "sumDurations ps = sum_list (map (\<lambda>p. calculateDuration (startDate p) (endDate p)) ps)"

text \<open>
  Modelled from the spec: the condition of C5 as amended. Two periods share months when
  they have a span of one month or more in common: the later of the two start months
  lies before the earlier of the two end months. This is narrower than overlap of the
  intervals: periods that only touch (one ends in the month the other starts in) share no
  months, and a period that starts and ends in the same month shares none with any other,
  even when it lies inside it.
\<close>

definition shareMonths :: "period \<Rightarrow> period \<Rightarrow> bool" where
  "shareMonths p q =
     (max (monthIndex (startDate p)) (monthIndex (startDate q))
        < min (monthIndex (endDate p)) (monthIndex (endDate q)))"

fun noSharedMonths :: "period list \<Rightarrow> bool" where
  "noSharedMonths [] = True"
| "noSharedMonths (p # ps) = (list_all (\<lambda>q. \<not> shareMonths p q) ps \<and> noSharedMonths ps)"

text \<open>Invariants of the two tables the Deduplicator builds.\<close>

definition keyed :: "(periodKey \<times> period) list \<Rightarrow> bool" where
  "keyed m = (distinct (map fst m) \<and> (\<forall>kv\<in>set m. fst kv = periodKey (snd kv)))"

definition grouped :: "(jsstring \<times> period list) list \<Rightarrow> bool" where
  "grouped obj = (distinct (map fst obj)
      \<and> (\<forall>cg\<in>set obj. fst cg \<notin> set objectPrototypeKeys \<and> (\<forall>p\<in>set (snd cg). companyKey p = fst cg)))"

text \<open>The periods of a set that no other period of the same company group contains.\<close>

definition survivors :: "period set \<Rightarrow> period set" where
  "survivors V = {p \<in> V. \<not> (\<exists>q\<in>V. q \<noteq> p \<and> companyKey q = companyKey p \<and> containedIn p q)}"


section \<open>Properties of matches\<close>

text \<open>
  The groups that every match of an expression captures, and the groups it can capture.
\<close>

primrec sureGroups :: "regex \<Rightarrow> nat set" where
  "sureGroups (Cls rs) = {}"
| "sureGroups (NotCls rs) = {}"
| "sureGroups Eps = {}"
| "sureGroups (Seq a b) = sureGroups a \<union> sureGroups b"
| "sureGroups (Alt a b) = sureGroups a \<inter> sureGroups b"
| "sureGroups (Rep mn mx g a) = (if 0 < mn \<and> mx \<noteq> Some 0 then sureGroups a else {})"
| "sureGroups (Grp n a) = insert n (sureGroups a)"
| "sureGroups (Look a) = sureGroups a"
| "sureGroups Bol = {}"
| "sureGroups Eol = {}"

primrec allGroups :: "regex \<Rightarrow> nat set" where
  "allGroups (Cls rs) = {}"
| "allGroups (NotCls rs) = {}"
| "allGroups Eps = {}"
| "allGroups (Seq a b) = allGroups a \<union> allGroups b"
| "allGroups (Alt a b) = allGroups a \<union> allGroups b"
| "allGroups (Rep mn mx g a) = allGroups a"
| "allGroups (Grp n a) = insert n (allGroups a)"
| "allGroups (Look a) = allGroups a"
| "allGroups Bol = {}"
| "allGroups Eol = {}"

text \<open>\<open>later st st'\<close>: the state \<open>st'\<close> is further on in the input of \<open>st\<close>.\<close>

definition later :: "mstate \<Rightarrow> mstate \<Rightarrow> bool" where
  "later st st' =
     (\<exists>n\<le>length (rest st). pos st' = pos st + n \<and> rest st' = drop n (rest st))"

text \<open>
  What a successful run of a matcher \<open>f\<close> from \<open>st\<close> into its continuation at \<open>st'\<close>
  guarantees: any continuation that succeeds at \<open>st'\<close> makes \<open>f\<close> succeed from \<open>st\<close>;
  \<open>st'\<close> is later in the same input; and the captures of \<open>st'\<close> are those of \<open>st\<close> with
  new ones in front, among them the groups of \<open>S\<close> and none outside \<open>A\<close>.
\<close>

definition leads :: "((mstate \<Rightarrow> mstate option) \<Rightarrow> mstate \<Rightarrow> mstate option) \<Rightarrow> nat set \<Rightarrow> nat set
    \<Rightarrow> mstate \<Rightarrow> mstate \<Rightarrow> bool" where
  "leads f S A st st' =
     ((\<forall>k. k st' \<noteq> None \<longrightarrow> f k st \<noteq> None) \<and> later st st'
      \<and> (\<exists>new. caps st' = new @ caps st \<and> S \<subseteq> fst ` set new \<and> fst ` set new \<subseteq> A))"

definition sound :: "((mstate \<Rightarrow> mstate option) \<Rightarrow> mstate \<Rightarrow> mstate option) \<Rightarrow> nat set \<Rightarrow> nat set \<Rightarrow> bool" where
  "sound f S A =
     (\<forall>k st res. f k st = Some res \<longrightarrow> (\<exists>st'. k st' = Some res \<and> leads f S A st st'))"

text \<open>The state \<open>m\<close> units further on.\<close>

definition adv :: "nat \<Rightarrow> mstate \<Rightarrow> mstate" where
  "adv m st = st\<lparr>pos := pos st + m, rest := drop m (rest st)\<rparr>"


section \<open>The work-experience section, described without the pattern\<close>

text \<open>
  Modelled from the spec: C4 as amended. The definitions of this section do not come
  from the source. They say in terms of the text alone, without a regular expression,
  which slice is the work-experience section, so that the slice that the source takes
  with its pattern (\<open>workSectionText\<close>) can be compared with them.
\<close>

text \<open>
  Modelled from the spec: a word, in any letter case, at the front of a text, and the
  number of white-space units at the front of a text.
\<close>

definition wordAt :: "string \<Rightarrow> jsstring \<Rightarrow> bool" where
  "wordAt w xs = startsWith (toLowerCase xs) (str w)"

definition spaceRun :: "jsstring \<Rightarrow> nat" where
  "spaceRun xs = length (takeWhile isSpace xs)"

text \<open>
  Modelled from the spec: the length of a heading phrase of one word, or of two words with
  one or more white-space units between them, at the front of a text.
\<close>

definition oneWordAt :: "string \<Rightarrow> jsstring \<Rightarrow> nat option" where
  "oneWordAt w xs = (if wordAt w xs then Some (length w) else None)"

definition twoWordsAt :: "string \<Rightarrow> string \<Rightarrow> jsstring \<Rightarrow> nat option" where
  "twoWordsAt w v xs =
     (let s = spaceRun (drop (length w) xs) in
      if wordAt w xs \<and> 0 < s \<and> wordAt v (drop (length w + s) xs)
      then Some (length w + s + length v) else None)"

text \<open>
  Modelled from the spec: the length of the heading at the front of a text, if one of the
  four heading phrases is there.
\<close>

definition headingLength :: "jsstring \<Rightarrow> nat option" where
  "headingLength xs =
     (case twoWordsAt ''work'' ''experience'' xs of
        Some n \<Rightarrow> Some n
      | None \<Rightarrow>
          (case oneWordAt ''employment'' xs of
             Some n \<Rightarrow> Some n
           | None \<Rightarrow>
               (case twoWordsAt ''professional'' ''experience'' xs of
                  Some n \<Rightarrow> Some n
                | None \<Rightarrow> twoWordsAt ''work'' ''history'' xs)))"

text \<open>
  Modelled from the spec: where the section starts in a text that has a heading at its
  front. The heading counts only if a colon or a white-space unit follows it and at least
  one more unit follows that one. The section starts after the longest run of colons and
  white-space units behind the heading, or, when that run reaches the end of the text,
  with the last unit of the text.
\<close>

definition isSeparator :: "nat \<Rightarrow> bool" where
  "isSeparator u = (u = 58 \<or> isSpace u)"

definition sectionOffset :: "jsstring \<Rightarrow> nat option" where
  "sectionOffset xs =
     (case headingLength xs of
        None \<Rightarrow> None
      | Some n \<Rightarrow>
          (let run = length (takeWhile isSeparator (drop n xs)) in
           if run = 0 \<or> length xs \<le> n + 1 then None
           else Some (min (n + run) (length xs - 1))))"

text \<open>
  Modelled from the spec: the places at which a section stops: the end of the text, the
  beginning of one of five words (in any letter case, also inside a longer word), and
  the beginning of a blank line, that is, a line feed that is followed, after white-space
  units only, by another line feed.
\<close>

definition sectionWords :: "string list" where
  "sectionWords = [''education'', ''skills'', ''certification'', ''language'', ''hobbies'']"

definition blankLineAt :: "jsstring \<Rightarrow> bool" where
  "blankLineAt ys = (case ys of [] \<Rightarrow> False | c # cs \<Rightarrow> c = 10 \<and> 10 \<in> set (takeWhile isSpace cs))"

definition sectionStops :: "jsstring \<Rightarrow> bool" where
  "sectionStops ys = (ys = [] \<or> list_ex (\<lambda>w. wordAt w ys) sectionWords \<or> blankLineAt ys)"

text \<open>
  Modelled from the spec: the section that starts at the front of a text is its first
  unit and then every unit up to the first place at which a section stops.
\<close>

fun untilStop :: "jsstring \<Rightarrow> jsstring" where
  "untilStop [] = []"
| "untilStop (c # cs) = (if sectionStops (c # cs) then [] else c # untilStop cs)"

fun sectionFrom :: "jsstring \<Rightarrow> jsstring" where
  "sectionFrom [] = []"
| "sectionFrom (c # cs) = c # untilStop cs"

text \<open>
  Modelled from the spec: the work-experience section of a text is the section after the
  leftmost heading that counts; without such a heading there is none.
\<close>

fun sectionOfSpec :: "jsstring \<Rightarrow> jsstring option" where
  "sectionOfSpec [] = None"
| "sectionOfSpec (c # cs) =
     (case sectionOffset (c # cs) of
        None \<Rightarrow> sectionOfSpec cs
      | Some n \<Rightarrow> Some (sectionFrom (drop n (c # cs))))"


section \<open>Sample periods\<close>

text \<open>
  A period as the parsers build it from two dates, a title and a company; the two text
  fields, which nothing after extraction reads, are left empty.
\<close>

definition samplePeriod :: "date \<Rightarrow> date \<Rightarrow> string \<Rightarrow> string \<Rightarrow> period" where
  "samplePeriod s e t c =
     \<lparr>startDate = s, endDate = e, duration = calculateDuration s e, originalText = [],
      contextText = [], jobTitle = Some (str t), company = Some (str c)\<rparr>"

definition periodA :: period where
  "periodA = samplePeriod (newDate 2018 0) (newDate 2019 11) ''Engineer'' ''CompanyA''"

definition periodB :: period where
  "periodB = samplePeriod (newDate 2018 2) (newDate 2018 5) ''Engineer'' ''CompanyA''"

definition periodC :: period where
  "periodC = samplePeriod (newDate 2020 0) (newDate 2020 11) ''Engineer'' ''CompanyA''"

text \<open>A period of a single month, March 2018, inside \<open>periodA\<close>.\<close>

definition periodD :: period where
  "periodD = samplePeriod (newDate 2018 2) (newDate 2018 2) ''Engineer'' ''CompanyA''"

definition juniorJob :: period where
  "juniorJob = samplePeriod (newDate 2018 0) (newDate 2019 11) ''junior developer'' ''Acme''"

definition developerJob :: period where
  "developerJob = samplePeriod (newDate 2020 0) (newDate 2021 11) ''developer'' ''Acme''"

definition stintR :: period where
  "stintR = samplePeriod (newDate 2020 0) (newDate 2020 11) ''Developer'' ''CompanyB''"

definition stintP :: period where
  "stintP = samplePeriod (newDate 2020 0) (newDate 2020 11) ''Developer'' ''CompanyA''"

definition stintQ :: period where
  "stintQ = samplePeriod (newDate 2020 0) (newDate 2020 11) ''Team Lead'' ''CompanyA''"

section \<open>Sample texts\<close>

text \<open>A resume whose work section holds two entries separated by an empty line.\<close>

definition blankLineResume :: jsstring where
  "blankLineResume =
     str ''Work Experience:'' @ [10] @ str ''Developer | Acme | 01/2020 - 02/2021'' @ [10, 10]
     @ str ''Manager | Initech | 03/2021 - present''"

text \<open>Whether one of the words that the pattern takes for the next heading occurs in a text.\<close>

definition hasSectionWord :: "jsstring \<Rightarrow> bool" where
  "hasSectionWord text = list_ex (\<lambda>w. includesStr (toLowerCase text) (str w)) sectionWords"

text \<open>A reading of the clock (a moment in November 2026) for the examples.\<close>

definition sampleNow :: date where
  "sampleNow = (2026 * 12 + 10, 1000)"

text \<open>
  Two periods that run to that moment, as the parser builds them from \<open>01/2018 - present\<close>
  and \<open>11/2026 - present\<close>.
\<close>

definition currentJob :: period where
  "currentJob = samplePeriod (newDate 2018 0) sampleNow ''Engineer'' ''CompanyA''"

definition latestJob :: period where
  "latestJob = samplePeriod (newDate 2026 10) sampleNow ''Consultant'' ''CompanyB''"


section \<open>Evaluation helpers\<close>

lemma str_simps: "str [] = []" "str (c # cs) = of_char c # str cs"
  by (simp_all add: str_def)

lemmas sample_defs =
  samplePeriod_def periodA_def periodB_def periodC_def stintP_def stintQ_def stintR_def
  juniorJob_def developerJob_def periodD_def currentJob_def latestJob_def

section \<open>Lemmas: the Interval Aggregator\<close>

lemma monthIndex_fst: "monthIndex d = fst d"
  by (simp add: monthIndex_def getFullYear_def getMonth_def)

lemma calculateDuration_fst: "calculateDuration s e = fst e - fst s"
  by (simp add: calculateDuration_def getFullYear_def getMonth_def Let_def algebra_simps)

lemma date_le_fst: "(a::date) \<le> b \<Longrightarrow> fst a \<le> fst b"
  by (auto simp: less_eq_prod_def)

lemma date_less_fst: "(a::date) < b \<Longrightarrow> fst a \<le> fst b"
  by (auto simp: less_prod_def)

lemma fst_max_date: "fst (max (a::date) b) = max (fst a) (fst b)"
  by (auto simp: max_def less_eq_prod_def)

lemma shareMonths_sym: "shareMonths p q = shareMonths q p"
  by (auto simp: shareMonths_def)

lemma totalLoop_step:
  assumes "startDate p \<le> endDate p"
  shows "totalLoop (p # ps) cur tot =
           totalLoop ps (max cur (endDate p))
             (tot + calculateDuration (startDate p) (endDate p)
                - max 0 (min (fst cur) (fst (endDate p)) - fst (startDate p)))"
proof -
  consider (a) "startDate p > cur" | (b) "\<not> startDate p > cur" "endDate p > cur"
    | (c) "\<not> startDate p > cur" "\<not> endDate p > cur" by blast
  then show ?thesis
  proof cases
    case a
    then have "cur < endDate p" using assms by simp
    then have m: "max cur (endDate p) = endDate p" by (simp add: max_absorb2 less_imp_le)
    from a have "fst cur \<le> fst (startDate p)" by (rule date_less_fst)
    then show ?thesis using a m by (simp add: calculateDuration_fst)
  next
    case b
    then have m: "max cur (endDate p) = endDate p" by (simp add: max_absorb2 less_imp_le)
    from b have "fst (startDate p) \<le> fst cur" "fst cur \<le> fst (endDate p)"
      by (auto intro: date_le_fst date_less_fst)
    then show ?thesis using b m by (simp add: calculateDuration_fst)
  next
    case c
    then have m: "max cur (endDate p) = cur" by (simp add: max_absorb1)
    from c assms have "fst (startDate p) \<le> fst (endDate p)" "fst (endDate p) \<le> fst cur"
      by (auto intro: date_le_fst)
    then show ?thesis using c m by (simp add: calculateDuration_fst)
  qed
qed

lemma totalLoop_le_iff:
  assumes "\<forall>p\<in>set xs. startDate p \<le> endDate p"
    and "sorted (map (\<lambda>p. fst (startDate p)) xs)"
  shows "totalLoop xs cur tot \<le> tot + sumDurations xs \<and>
         (totalLoop xs cur tot = tot + sumDurations xs \<longleftrightarrow>
            (\<forall>p\<in>set xs. \<not> (fst (startDate p) < fst cur \<and> fst (startDate p) < fst (endDate p)))
            \<and> noSharedMonths xs)"
  using assms
proof (induction xs arbitrary: cur tot)
  case Nil
  then show ?case by (simp add: sumDurations_def)
next
  case (Cons p ps)
  let ?d = "max 0 (min (fst cur) (fst (endDate p)) - fst (startDate p))"
  let ?cur' = "max cur (endDate p)"
  let ?tot' = "tot + calculateDuration (startDate p) (endDate p) - ?d"
  have v: "startDate p \<le> endDate p" using Cons.prems by simp
  have step: "totalLoop (p # ps) cur tot = totalLoop ps ?cur' ?tot'"
    using totalLoop_step [OF v] .
  have ih: "totalLoop ps ?cur' ?tot' \<le> ?tot' + sumDurations ps \<and>
         (totalLoop ps ?cur' ?tot' = ?tot' + sumDurations ps \<longleftrightarrow>
            (\<forall>r\<in>set ps. \<not> (fst (startDate r) < fst ?cur' \<and> fst (startDate r) < fst (endDate r)))
            \<and> noSharedMonths ps)"
    using Cons.IH [of ?cur' ?tot'] Cons.prems by simp
  have sd: "sumDurations (p # ps) = calculateDuration (startDate p) (endDate p) + sumDurations ps"
    by (simp add: sumDurations_def)
  have d0: "0 \<le> ?d" by simp
  have dz: "?d = 0 \<longleftrightarrow> \<not> (fst (startDate p) < fst cur \<and> fst (startDate p) < fst (endDate p))"
    by auto
  have srt: "\<forall>r\<in>set ps. fst (startDate p) \<le> fst (startDate r)"
    using Cons.prems by simp
  have ov: "\<forall>r\<in>set ps. shareMonths p r \<longleftrightarrow>
              (fst (startDate r) < fst (endDate p) \<and> fst (startDate r) < fst (endDate r))"
    using srt by (auto simp: shareMonths_def monthIndex_fst)
  have cond: "(\<forall>r\<in>set ps. \<not> (fst (startDate r) < fst ?cur' \<and> fst (startDate r) < fst (endDate r)))
       \<longleftrightarrow> (\<forall>r\<in>set ps. \<not> (fst (startDate r) < fst cur \<and> fst (startDate r) < fst (endDate r)))
            \<and> list_all (\<lambda>r. \<not> shareMonths p r) ps"
    using ov by (auto simp: fst_max_date list_all_iff)
  have le: "totalLoop (p # ps) cur tot \<le> tot + sumDurations (p # ps)"
    using step ih d0 sd by linarith
  have eq: "totalLoop (p # ps) cur tot = tot + sumDurations (p # ps) \<longleftrightarrow>
        ?d = 0 \<and> totalLoop ps ?cur' ?tot' = ?tot' + sumDurations ps"
    using step ih d0 sd by linarith
  show ?case
    using le eq ih cond dz by auto
qed

lemma noSharedMonths_insort:
  "noSharedMonths (insort_key f x xs) = (list_all (\<lambda>q. \<not> shareMonths x q) xs \<and> noSharedMonths xs)"
proof (induction xs)
  case Nil
  then show ?case by simp
next
  case (Cons y ys)
  then show ?case
    using shareMonths_sym [of x y] by (auto simp: list_all_iff set_insort_key)
qed

lemma noSharedMonths_sort: "noSharedMonths (sort_key f xs) = noSharedMonths xs"
  by (induction xs) (simp_all add: noSharedMonths_insort list_all_iff)

lemma sumDurations_sort: "sumDurations (sort_key f xs) = sumDurations xs"
proof -
  have "mset (map (\<lambda>p. calculateDuration (startDate p) (endDate p)) (sort_key f xs))
        = mset (map (\<lambda>p. calculateDuration (startDate p) (endDate p)) xs)"
    by simp
  then show ?thesis
    unfolding sumDurations_def by (metis sum_mset_sum_list)
qed

lemma sorted_startDate_months:
  "sorted (map startDate xs) \<Longrightarrow> sorted (map (\<lambda>p. fst (startDate p)) xs)"
  by (induction xs) (auto intro: date_le_fst)

section \<open>Lemmas: the Deduplicator\<close>

subsection \<open>Association lists\<close>

lemma set_update_subset: "set (AList.update k v al) \<subseteq> insert (k, v) (set al)"
  by (induction al) auto

lemma update_fresh: "k \<notin> fst ` set al \<Longrightarrow> AList.update k v al = al @ [(k, v)]"
  by (induction al) auto

subsection \<open>Step 1\<close>

lemma keyed_update: "keyed m \<Longrightarrow> keyed (AList.update (periodKey p) p m)"
  unfolding keyed_def using set_update_subset [of "periodKey p" p m]
  by (auto simp: distinct_update)

lemma keyed_uniqueStep: "keyed m \<Longrightarrow> keyed (uniqueStep m p)"
  by (auto simp: uniqueStep_def keyed_update split: option.splits)

lemma keyed_foldl: "keyed m \<Longrightarrow> keyed (foldl uniqueStep m ps)"
  by (induction ps arbitrary: m) (auto simp: keyed_uniqueStep)

lemma uniqueStep_values: "snd ` set (uniqueStep m p) \<subseteq> insert p (snd ` set m)"
  using set_update_subset [of "periodKey p" p m]
  by (auto simp: uniqueStep_def split: option.splits)

lemma foldl_uniqueStep_values: "snd ` set (foldl uniqueStep m ps) \<subseteq> snd ` set m \<union> set ps"
proof (induction ps arbitrary: m)
  case Nil
  then show ?case by simp
next
  case (Cons p ps)
  show ?case using Cons.IH [of "uniqueStep m p"] uniqueStep_values [of m p] by auto
qed

lemma uniqueStep_keys: "fst ` set (uniqueStep m p) = insert (periodKey p) (fst ` set m)"
proof (cases "map_of m (periodKey p)")
  case None
  then show ?thesis by (simp add: uniqueStep_def dom_update)
next
  case (Some e)
  then have "periodKey p \<in> fst ` set m" by (metis map_of_eq_None_iff option.distinct(1))
  then have ins: "insert (periodKey p) (fst ` set m) = fst ` set m" by blast
  show ?thesis
    unfolding ins using Some ins by (simp add: uniqueStep_def dom_update)
qed

lemma foldl_uniqueStep_keys:
  "fst ` set (foldl uniqueStep m ps) = fst ` set m \<union> periodKey ` set ps"
  by (induction ps arbitrary: m) (auto simp: uniqueStep_keys)

lemma uniqueByDates_keyed: "keyed (uniqueByDates ps)"
  unfolding uniqueByDates_def by (rule keyed_foldl) (simp add: keyed_def)

lemma uniqueByDates_distinct_keys: "distinct (map periodKey (map snd (uniqueByDates ps)))"
proof -
  have "map periodKey (map snd (uniqueByDates ps)) = map fst (uniqueByDates ps)"
    unfolding map_map using uniqueByDates_keyed [of ps] by (intro map_cong) (auto simp: keyed_def)
  moreover have "distinct (map fst (uniqueByDates ps))"
    using uniqueByDates_keyed [of ps] by (simp add: keyed_def)
  ultimately show ?thesis by metis
qed

lemma uniqueByDates_distinct: "distinct (map snd (uniqueByDates ps))"
  using uniqueByDates_distinct_keys [of ps] by (metis distinct_map)

lemma uniqueByDates_subset: "set (map snd (uniqueByDates ps)) \<subseteq> set ps"
  using foldl_uniqueStep_values [of "[]" ps] by (simp add: uniqueByDates_def)

lemma uniqueByDates_key_kept:
  assumes "p \<in> set ps"
  obtains x where "x \<in> set (map snd (uniqueByDates ps))" and "periodKey x = periodKey p"
    and "x \<in> set ps"
proof -
  have "periodKey p \<in> fst ` set (uniqueByDates ps)"
    using assms by (simp add: uniqueByDates_def foldl_uniqueStep_keys)
  then obtain kv where kv: "kv \<in> set (uniqueByDates ps)" "fst kv = periodKey p" by auto
  then have k: "periodKey (snd kv) = periodKey p"
    using uniqueByDates_keyed [of ps] by (auto simp: keyed_def)
  have v: "snd kv \<in> set (map snd (uniqueByDates ps))" using kv(1) by force
  then have "snd kv \<in> set ps" using uniqueByDates_subset [of ps] by blast
  then show ?thesis using that v k by blast
qed

lemma foldl_uniqueStep_fresh:
  assumes "distinct (map periodKey ps)" and "periodKey ` set ps \<inter> fst ` set m = {}"
  shows "foldl uniqueStep m ps = m @ map (\<lambda>p. (periodKey p, p)) ps"
  using assms
proof (induction ps arbitrary: m)
  case Nil
  then show ?case by simp
next
  case (Cons p ps)
  have fresh: "periodKey p \<notin> fst ` set m" using Cons.prems by auto
  then have none: "map_of m (periodKey p) = None" by (simp add: map_of_eq_None_iff)
  have step: "uniqueStep m p = m @ [(periodKey p, p)]"
    using none fresh by (simp add: uniqueStep_def update_fresh)
  have "periodKey ` set ps \<inter> fst ` set (m @ [(periodKey p, p)]) = {}"
    using Cons.prems by auto
  then show ?case using Cons.IH [of "m @ [(periodKey p, p)]"] Cons.prems step by simp
qed

lemma uniqueByDates_id: "distinct (map periodKey ps) \<Longrightarrow> map snd (uniqueByDates ps) = ps"
  using foldl_uniqueStep_fresh [of ps "[]"] by (simp add: uniqueByDates_def comp_def)

subsection \<open>Step 2: grouping\<close>

lemma mset_concat_update:
  "distinct (map fst obj) \<Longrightarrow> map_of obj c = Some arr \<Longrightarrow>
   mset (concat (map snd (AList.update c (arr @ [p]) obj))) = mset (concat (map snd obj)) + {#p#}"
proof (induction obj)
  case Nil
  then show ?case by simp
next
  case (Cons a obj)
  then show ?case by (cases a) (auto split: if_splits)
qed

lemma groupStep_grouped:
  assumes "grouped obj" and "groupStep obj p = Inr obj'"
  shows "grouped obj' \<and> mset (concat (map snd obj')) = mset (concat (map snd obj)) + {#p#}"
proof (cases "map_of obj (companyKey p)")
  case None
  then have fresh: "companyKey p \<notin> fst ` set obj" by (simp add: map_of_eq_None_iff)
  from None assms(2) have np: "companyKey p \<notin> set objectPrototypeKeys"
    and obj': "obj' = AList.update (companyKey p) [p] obj"
    by (auto simp: groupStep_def Let_def split: if_splits)
  have "obj' = obj @ [(companyKey p, [p])]" using obj' fresh by (simp add: update_fresh)
  then show ?thesis using assms(1) fresh np by (auto simp: grouped_def)
next
  case (Some arr)
  then have obj': "obj' = AList.update (companyKey p) (arr @ [p]) obj"
    using assms(2) by (simp add: groupStep_def Let_def)
  have mem: "(companyKey p, arr) \<in> set obj" using Some by (rule map_of_SomeD)
  have d: "distinct (map fst obj)" using assms(1) by (simp add: grouped_def)
  have g: "grouped obj'"
    unfolding grouped_def obj'
    using assms(1) mem set_update_subset [of "companyKey p" "arr @ [p]" obj]
    by (fastforce simp: grouped_def distinct_update)
  show ?thesis using g mset_concat_update [OF d Some] obj' by simp
qed

lemma groupAll_grouped:
  assumes "grouped obj" and "groupAll obj ps = Inr obj'"
  shows "grouped obj' \<and> mset (concat (map snd obj')) = mset (concat (map snd obj)) + mset ps"
  using assms
proof (induction ps arbitrary: obj)
  case Nil
  then show ?case by simp
next
  case (Cons p ps)
  from Cons.prems(2) obtain o1 where s: "groupStep obj p = Inr o1" and r: "groupAll o1 ps = Inr obj'"
    by (auto split: sum.splits)
  from groupStep_grouped [OF Cons.prems(1) s] Cons.IH [OF _ r] show ?case by auto
qed

lemma groupStep_ok:
  assumes "companyKey p \<notin> set objectPrototypeKeys"
  shows "\<exists>obj'. groupStep obj p = Inr obj'"
  using assms by (auto simp: groupStep_def Let_def split: option.splits)

lemma groupAll_ok:
  assumes "\<forall>p\<in>set ps. companyKey p \<notin> set objectPrototypeKeys"
  shows "\<exists>obj'. groupAll obj ps = Inr obj'"
  using assms
proof (induction ps arbitrary: obj)
  case Nil
  then show ?case by simp
next
  case (Cons p ps)
  then obtain o1 where "groupStep obj p = Inr o1" using groupStep_ok [of p obj] by auto
  then show ?case using Cons by auto
qed

lemma groupAll_keys_ok:
  assumes "groupAll [] ps = Inr obj" and "p \<in> set ps"
  shows "companyKey p \<notin> set objectPrototypeKeys"
proof -
  have g0: "grouped []" by (simp add: grouped_def)
  from groupAll_grouped [OF g0 assms(1)]
  have g: "grouped obj" and m: "mset (concat (map snd obj)) = mset ps" by auto
  from m have "set (concat (map snd obj)) = set ps" by (metis set_mset_mset)
  then have "p \<in> set (concat (map snd obj))" using assms(2) by blast
  then obtain cg where "cg \<in> set obj" "p \<in> set (snd cg)" by auto
  then show ?thesis using g by (auto simp: grouped_def)
qed

subsection \<open>Object.values\<close>

lemma mset_objectValues: "mset (objectValues obj) = mset (map snd obj)"
proof -
  have "mset (objectValues obj)
        = image_mset snd (filter_mset (\<lambda>kv. isArrayIndex (fst kv)) (mset obj))
          + image_mset snd (filter_mset (\<lambda>kv. \<not> isArrayIndex (fst kv)) (mset obj))"
    by (simp add: objectValues_def)
  also have "\<dots> = image_mset snd (mset obj)"
    by (metis image_mset_union multiset_partition)
  finally show ?thesis by simp
qed

lemma set_objectValues: "set (objectValues obj) = snd ` set obj"
  using mset_objectValues [of obj] by (metis set_mset_mset set_map)

subsection \<open>The containment scan\<close>

lemma isContained_iff:
  "isContained cps i \<longleftrightarrow> (\<exists>j<length cps. j \<noteq> i \<and> containedIn (cps ! i) (cps ! j))"
  by (auto simp: isContained_def list_ex_iff)

lemma set_scan:
  assumes "distinct s"
  shows "set (map (\<lambda>i. s ! i) (filter (\<lambda>i. \<not> isContained s i) [0..<length s]))
         = {p \<in> set s. \<not> (\<exists>q\<in>set s. q \<noteq> p \<and> containedIn p q)}" (is "?L = ?R")
proof
  show "?L \<subseteq> ?R"
  proof
    fix p assume "p \<in> ?L"
    then obtain i where i: "i < length s" "\<not> isContained s i" "p = s ! i" by auto
    have "\<not> (\<exists>q\<in>set s. q \<noteq> p \<and> containedIn p q)"
    proof
      assume "\<exists>q\<in>set s. q \<noteq> p \<and> containedIn p q"
      then obtain q where q: "q \<in> set s" "q \<noteq> p" "containedIn p q" by auto
      then obtain j where j: "j < length s" "s ! j = q" by (auto simp: in_set_conv_nth)
      then have "j \<noteq> i" using q(2) i(3) by auto
      then show False using i j q by (auto simp: isContained_iff)
    qed
    then show "p \<in> ?R" using i by auto
  qed
  show "?R \<subseteq> ?L"
  proof
    fix p assume "p \<in> ?R"
    then have p: "p \<in> set s" "\<not> (\<exists>q\<in>set s. q \<noteq> p \<and> containedIn p q)" by auto
    then obtain i where i: "i < length s" "s ! i = p" by (auto simp: in_set_conv_nth)
    have "\<not> isContained s i"
    proof
      assume "isContained s i"
      then obtain j where j: "j < length s" "j \<noteq> i" "containedIn (s ! i) (s ! j)"
        by (auto simp: isContained_iff)
      then have "s ! j \<noteq> s ! i" using assms i(1) by (simp add: nth_eq_iff_index_eq)
      then show False using p(2) j i by auto
    qed
    then show "p \<in> ?L" using i by auto
  qed
qed

lemma distinct_scan:
  assumes "distinct s"
  shows "distinct (map (\<lambda>i. s ! i) (filter P [0..<length s]))"
proof -
  have "inj_on (\<lambda>i. s ! i) (set (filter P [0..<length s]))"
    using assms by (auto simp: inj_on_def nth_eq_iff_index_eq)
  then show ?thesis by (simp add: distinct_map)
qed

lemma set_processCompany:
  assumes "distinct g"
  shows "set (processCompany g) = {p \<in> set g. \<not> (\<exists>q\<in>set g. q \<noteq> p \<and> containedIn p q)}"
proof (cases "length g \<le> 1")
  case True
  then have "g = [] \<or> (\<exists>x. g = [x])"
    by (cases g) auto
  then show ?thesis using True by (auto simp: processCompany_def)
next
  case False
  let ?s = "sort_key (\<lambda>p. - duration p) g"
  have d: "distinct ?s" using assms by simp
  show ?thesis using False set_scan [OF d] by (simp add: processCompany_def Let_def)
qed

lemma distinct_processCompany: "distinct g \<Longrightarrow> distinct (processCompany g)"
  using distinct_scan [of "sort_key (\<lambda>p. - duration p) g"]
  by (simp add: processCompany_def Let_def)

lemma mset_concat_perm: "mset xss = mset yss \<Longrightarrow> mset (concat xss) = mset (concat yss)"
proof -
  assume a: "mset xss = mset yss"
  have "\<And>zss::'a list list. mset (concat zss) = \<Sum>\<^sub># (image_mset mset (mset zss))"
    by (induct_tac zss) auto
  then show ?thesis using a by metis
qed

lemma distinct_concat_map:
  assumes "distinct (concat gs)"
    and "\<And>g. distinct g \<Longrightarrow> distinct (f g) \<and> set (f g) \<subseteq> set g"
  shows "distinct (concat (map f gs))"
  using assms(1)
proof (induction gs)
  case Nil
  then show ?case by simp
next
  case (Cons g gs)
  have dg: "distinct g" and dgs: "distinct (concat gs)"
    and disj: "set g \<inter> set (concat gs) = {}" using Cons.prems by auto
  have fg: "set (f g) \<subseteq> set g" "distinct (f g)" using dg assms(2) by auto
  have "set (f h) \<subseteq> set h" if "h \<in> set gs" for h
  proof -
    have "distinct h" using dgs that by (auto simp: distinct_concat_iff)
    then show ?thesis using assms(2) by blast
  qed
  then have "set (concat (map f gs)) \<subseteq> set (concat gs)" by auto
  then have "set (f g) \<inter> set (concat (map f gs)) = {}" using fg(1) disj by blast
  then show ?case using fg(2) Cons.IH [OF dgs] by simp
qed

lemma dedup_char:
  assumes big: "\<not> length ps \<le> 1" and res: "deduplicateEmploymentPeriods ps = Inr out"
  shows "set out = survivors (set (map snd (uniqueByDates ps))) \<and> distinct out"
proof -
  let ?vals = "map snd (uniqueByDates ps)"
  let ?V = "set ?vals"
  from big res obtain obj where obj: "groupAll [] ?vals = Inr obj"
    and out: "out = concat (map processCompany (objectValues obj))"
    by (auto simp: deduplicateEmploymentPeriods_def split: sum.splits)
  have g0: "grouped []" by (simp add: grouped_def)
  from groupAll_grouped [OF g0 obj]
  have g: "grouped obj" and m: "mset (concat (map snd obj)) = mset ?vals" by auto
  have dc: "distinct (concat (map snd obj))"
    using m uniqueByDates_distinct [of ps] by (metis mset_eq_imp_distinct_iff)
  have sc: "set (concat (map snd obj)) = ?V" using m by (metis set_mset_mset)
  have grp: "set (snd cg) = {q \<in> ?V. companyKey q = fst cg} \<and> distinct (snd cg)"
    if cg: "cg \<in> set obj" for cg
  proof -
    have d: "distinct (snd cg)" using dc cg by (auto simp: distinct_concat_iff)
    have "set (snd cg) \<subseteq> {q \<in> ?V. companyKey q = fst cg}"
      using g cg sc by (auto simp: grouped_def)
    moreover have "{q \<in> ?V. companyKey q = fst cg} \<subseteq> set (snd cg)"
    proof
      fix q assume "q \<in> {q \<in> ?V. companyKey q = fst cg}"
      then have q: "q \<in> ?V" "companyKey q = fst cg" by auto
      then have "q \<in> set (concat (map snd obj))" using sc by blast
      then obtain cg' where cg': "cg' \<in> set obj" "q \<in> set (snd cg')" by auto
      then have "fst cg' = fst cg" using g q(2) by (auto simp: grouped_def)
      moreover have "distinct (map fst obj)" using g by (simp add: grouped_def)
      ultimately have "cg' = cg" using cg cg'(1)
        by (metis eq_key_imp_eq_value prod.collapse)
      then show "q \<in> set (snd cg)" using cg'(2) by simp
    qed
    ultimately show ?thesis using d by blast
  qed
  have "set out = (\<Union>cg\<in>set obj. set (processCompany (snd cg)))"
    by (auto simp: out set_objectValues)
  also have "\<dots> = (\<Union>cg\<in>set obj. {p \<in> set (snd cg). \<not> (\<exists>q\<in>set (snd cg). q \<noteq> p \<and> containedIn p q)})"
    using grp by (simp add: set_processCompany)
  also have "\<dots> = survivors ?V"
  proof
    show "(\<Union>cg\<in>set obj. {p \<in> set (snd cg). \<not> (\<exists>q\<in>set (snd cg). q \<noteq> p \<and> containedIn p q)})
          \<subseteq> survivors ?V"
    proof
      fix p assume "p \<in> (\<Union>cg\<in>set obj. {p \<in> set (snd cg). \<not> (\<exists>q\<in>set (snd cg). q \<noteq> p \<and> containedIn p q)})"
      then obtain cg where cg: "cg \<in> set obj" "p \<in> set (snd cg)"
        "\<not> (\<exists>q\<in>set (snd cg). q \<noteq> p \<and> containedIn p q)" by auto
      from grp [OF cg(1)] have s: "set (snd cg) = {q \<in> ?V. companyKey q = fst cg}" by simp
      from s cg(2) have "p \<in> ?V" "companyKey p = fst cg" by auto
      then show "p \<in> survivors ?V" using cg(3) s unfolding survivors_def by auto
    qed
    show "survivors ?V
          \<subseteq> (\<Union>cg\<in>set obj. {p \<in> set (snd cg). \<not> (\<exists>q\<in>set (snd cg). q \<noteq> p \<and> containedIn p q)})"
    proof
      fix p assume "p \<in> survivors ?V"
      then have p: "p \<in> ?V" "\<not> (\<exists>q\<in>?V. q \<noteq> p \<and> companyKey q = companyKey p \<and> containedIn p q)"
        unfolding survivors_def by auto
      then have "p \<in> set (concat (map snd obj))" using sc by blast
      then obtain cg where cg: "cg \<in> set obj" "p \<in> set (snd cg)" by auto
      from grp [OF cg(1)] have s: "set (snd cg) = {q \<in> ?V. companyKey q = fst cg}" by simp
      from s cg(2) have "companyKey p = fst cg" by auto
      then have "\<not> (\<exists>q\<in>set (snd cg). q \<noteq> p \<and> containedIn p q)" using p(2) s by auto
      then show "p \<in> (\<Union>cg\<in>set obj. {p \<in> set (snd cg). \<not> (\<exists>q\<in>set (snd cg). q \<noteq> p \<and> containedIn p q)})"
        using cg by auto
    qed
  qed
  finally have S: "set out = survivors ?V" .
  have "mset (concat (objectValues obj)) = mset (concat (map snd obj))"
    by (rule mset_concat_perm) (rule mset_objectValues)
  then have "distinct (concat (objectValues obj))"
    using dc by (metis mset_eq_imp_distinct_iff)
  then have "distinct out"
    unfolding out
    by (rule distinct_concat_map) (auto simp: distinct_processCompany set_processCompany)
  with S show ?thesis by simp
qed

lemma dedup_small: "length ps \<le> 1 \<Longrightarrow> deduplicateEmploymentPeriods ps = Inr ps"
  by (simp add: deduplicateEmploymentPeriods_def)

lemma dedup_subset:
  assumes "deduplicateEmploymentPeriods ps = Inr out"
  shows "set out \<subseteq> set ps"
proof (cases "length ps \<le> 1")
  case True
  then show ?thesis using assms by (simp add: dedup_small)
next
  case False
  from dedup_char [OF False assms] have "set out \<subseteq> set (map snd (uniqueByDates ps))"
    by (auto simp: survivors_def)
  then show ?thesis using uniqueByDates_subset [of ps] by blast
qed

lemma dedup_no_containment:
  assumes "deduplicateEmploymentPeriods ps = Inr out"
    and "p \<in> set out" "q \<in> set out" "p \<noteq> q" "companyKey p = companyKey q"
  shows "\<not> containedIn p q"
proof (cases "length ps \<le> 1")
  case True
  then have "out = ps" using assms(1) by (simp add: dedup_small)
  then have "out = [] \<or> (\<exists>x. out = [x])" using True by (cases out) auto
  then show ?thesis using assms by auto
next
  case False
  from dedup_char [OF False assms(1)] assms(2-5) show ?thesis
    by (auto simp: survivors_def)
qed

lemma dedup_distinct_keys:
  assumes "\<not> length ps \<le> 1" "deduplicateEmploymentPeriods ps = Inr out"
  shows "distinct (map periodKey out)"
proof -
  from dedup_char [OF assms] have d: "distinct out"
    and s: "set out \<subseteq> set (map snd (uniqueByDates ps))" by (auto simp: survivors_def)
  have "inj_on periodKey (set (map snd (uniqueByDates ps)))"
    using uniqueByDates_distinct_keys [of ps] by (metis distinct_map)
  then have "inj_on periodKey (set out)" using s by (rule inj_on_subset)
  then show ?thesis using d by (simp add: distinct_map)
qed


section \<open>Lemmas: the matcher\<close>

lemma later_refl: "later st st"
  by (auto simp: later_def intro: exI [of _ 0])

lemma later_trans: "later a b \<Longrightarrow> later b c \<Longrightarrow> later a c"
proof -
  assume "later a b" "later b c"
  then obtain n m where n: "n \<le> length (rest a)" "pos b = pos a + n" "rest b = drop n (rest a)"
    and m: "m \<le> length (rest b)" "pos c = pos b + m" "rest c = drop m (rest b)"
    by (auto simp: later_def)
  have "n + m \<le> length (rest a)" using n m by simp
  moreover have "pos c = pos a + (n + m)" using n m by simp
  moreover have "rest c = drop (n + m) (rest a)" using n m by (simp add: add.commute)
  ultimately show ?thesis unfolding later_def by blast
qed

lemma leads_refl: "(\<And>k. k st \<noteq> None \<Longrightarrow> f k st \<noteq> None) \<Longrightarrow> leads f {} A st st"
  by (simp add: leads_def later_refl)

lemma soundI:
  assumes "\<And>k st res. f k st = Some res \<Longrightarrow> \<exists>st'. k st' = Some res \<and> leads f S A st st'"
  shows "sound f S A"
  using assms unfolding sound_def by blast

lemma soundD:
  assumes "sound f S A" and "f k st = Some res"
  obtains st' where "k st' = Some res" and "leads f S A st st'"
  using assms unfolding sound_def by blast

lemma caps_chain:
  assumes "\<exists>new. caps b = new @ caps a \<and> S1 \<subseteq> fst ` set new \<and> fst ` set new \<subseteq> A1"
    and "\<exists>new. caps c = new @ caps b \<and> S2 \<subseteq> fst ` set new \<and> fst ` set new \<subseteq> A2"
  shows "\<exists>new. caps c = new @ caps a \<and> S1 \<union> S2 \<subseteq> fst ` set new \<and> fst ` set new \<subseteq> A1 \<union> A2"
proof -
  from assms obtain n1 n2 where "caps b = n1 @ caps a" "S1 \<subseteq> fst ` set n1" "fst ` set n1 \<subseteq> A1"
    "caps c = n2 @ caps b" "S2 \<subseteq> fst ` set n2" "fst ` set n2 \<subseteq> A2" by blast
  then have "caps c = (n2 @ n1) @ caps a \<and> S1 \<union> S2 \<subseteq> fst ` set (n2 @ n1)
      \<and> fst ` set (n2 @ n1) \<subseteq> A1 \<union> A2" by auto
  then show ?thesis by blast
qed

text \<open>The quantifier.\<close>

lemma rep_sound:
  assumes f: "sound f S A"
  shows "rep f n mn mx g k st = Some res \<Longrightarrow>
         \<exists>st'. k st' = Some res \<and>
           leads (\<lambda>k. rep f n mn mx g k) (if 0 < mn \<and> mx \<noteq> Some 0 then S else {}) A st st'"
proof (induction n arbitrary: mn mx k st res)
  case 0
  then have mn: "mn = 0" and k: "k st = Some res" by (auto split: if_splits)
  have l: "leads (\<lambda>k. rep f 0 mn mx g k) {} A st st"
    by (rule leads_refl) (simp add: mn)
  have e: "(if 0 < mn \<and> mx \<noteq> Some 0 then S else {}) = {}" using mn by simp
  show ?case unfolding e using k l by blast
next
  case (Suc n)
  let ?mx = "map_option (\<lambda>m. m - 1) mx"
  let ?K = "\<lambda>k st'. if pos st' = pos st then None else rep f n 0 ?mx g k st'"
  show ?case
  proof (cases "mx = Some 0")
    case True
    then have k: "k st = Some res" using Suc.prems by simp
    have l: "leads (\<lambda>k. rep f (Suc n) mn mx g k) {} A st st"
      by (rule leads_refl) (simp add: True)
    have e: "(if 0 < mn \<and> mx \<noteq> Some 0 then S else {}) = {}" using True by simp
    show ?thesis unfolding e using k l by blast
  next
    case mx: False
    show ?thesis
    proof (cases "0 < mn")
      case True
      then have "f (rep f n (mn - 1) ?mx g k) st = Some res" using Suc.prems mx by simp
      from soundD [OF f this] obtain st1 where
        a: "rep f n (mn - 1) ?mx g k st1 = Some res" and b: "leads f S A st st1" by blast
      from Suc.IH [OF a] obtain st2 where c: "k st2 = Some res"
        and d: "leads (\<lambda>k. rep f n (mn - 1) ?mx g k)
                  (if 0 < mn - 1 \<and> ?mx \<noteq> Some 0 then S else {}) A st1 st2" by blast
      have L: "leads (\<lambda>k. rep f (Suc n) mn mx g k) S A st st2"
        unfolding leads_def
      proof (intro conjI allI impI)
        fix k2 :: "mstate \<Rightarrow> mstate option" assume "k2 st2 \<noteq> None"
        then have "rep f n (mn - 1) ?mx g k2 st1 \<noteq> None" using d by (simp add: leads_def)
        then have "f (rep f n (mn - 1) ?mx g k2) st \<noteq> None" using b by (simp add: leads_def)
        then show "rep f (Suc n) mn mx g k2 st \<noteq> None" using True mx by simp
      next
        show "later st st2" using b d by (auto simp: leads_def intro: later_trans)
      next
        have "\<exists>new. caps st2 = new @ caps st \<and> S \<union> {} \<subseteq> fst ` set new \<and> fst ` set new \<subseteq> A \<union> A"
          by (rule caps_chain [of st1 st S A st2 "{}" A]) (use b d in \<open>auto simp: leads_def\<close>)
        then show "\<exists>new. caps st2 = new @ caps st \<and> S \<subseteq> fst ` set new \<and> fst ` set new \<subseteq> A"
          by simp
      qed
      have e: "(if 0 < mn \<and> mx \<noteq> Some 0 then S else {}) = S" using True mx by simp
      show ?thesis unfolding e using c L by blast
    next
      case mn: False
      then have mn0: "mn = 0" by simp
      have more: "\<exists>st'. k st' = Some res \<and> leads (\<lambda>k. rep f (Suc n) mn mx g k) {} A st st'"
        if run: "f (?K k) st = Some res"
      proof -
        from soundD [OF f run] obtain st1 where
          a: "?K k st1 = Some res" and b: "leads f S A st st1" by blast
        from a have p: "pos st1 \<noteq> pos st" and a': "rep f n 0 ?mx g k st1 = Some res"
          by (auto split: if_splits)
        from Suc.IH [OF a'] obtain st2 where c: "k st2 = Some res"
          and d: "leads (\<lambda>k. rep f n 0 ?mx g k) {} A st1 st2" by auto
        have "leads (\<lambda>k. rep f (Suc n) mn mx g k) {} A st st2"
          unfolding leads_def
        proof (intro conjI allI impI)
          fix k2 :: "mstate \<Rightarrow> mstate option" assume "k2 st2 \<noteq> None"
          then have "rep f n 0 ?mx g k2 st1 \<noteq> None" using d by (simp add: leads_def)
          then have "?K k2 st1 \<noteq> None" using p by simp
          then have "f (?K k2) st \<noteq> None" using b by (simp add: leads_def)
          then show "rep f (Suc n) mn mx g k2 st \<noteq> None"
            using mn0 mx by (auto split: option.splits)
        next
          show "later st st2" using b d by (auto simp: leads_def intro: later_trans)
        next
          have "\<exists>new. caps st2 = new @ caps st \<and> {} \<union> {} \<subseteq> fst ` set new \<and> fst ` set new \<subseteq> A \<union> A"
            by (rule caps_chain [of st1 st "{}" A st2 "{}" A]) (use b d in \<open>auto simp: leads_def\<close>)
          then show "\<exists>new. caps st2 = new @ caps st \<and> {} \<subseteq> fst ` set new \<and> fst ` set new \<subseteq> A"
            by simp
        qed
        then show ?thesis using c by blast
      qed
      have stop: "\<exists>st'. k st' = Some res \<and> leads (\<lambda>k. rep f (Suc n) mn mx g k) {} A st st'"
        if k: "k st = Some res"
      proof -
        have "leads (\<lambda>k. rep f (Suc n) mn mx g k) {} A st st"
          by (rule leads_refl) (use mn0 mx in \<open>auto split: option.splits\<close>)
        then show ?thesis using k by blast
      qed
      have or: "f (?K k) st = Some res \<or> k st = Some res"
        using Suc.prems mn0 mx by (auto split: if_splits option.splits)
      have e: "(if 0 < mn \<and> mx \<noteq> Some 0 then S else {}) = {}" using mn0 by simp
      show ?thesis unfolding e using or more stop by blast
    qed
  qed
qed


lemma leadsI:
  assumes "\<And>k. k st' \<noteq> None \<Longrightarrow> f k st \<noteq> None" and "later st st'"
    and "caps st' = new @ caps st" and "S \<subseteq> fst ` set new" and "fst ` set new \<subseteq> A"
  shows "leads f S A st st'"
  using assms unfolding leads_def by blast

lemma leadsE:
  assumes "leads f S A st st'"
  obtains new where "\<And>k. k st' \<noteq> None \<Longrightarrow> f k st \<noteq> None" and "later st st'"
    and "caps st' = new @ caps st" and "S \<subseteq> fst ` set new" and "fst ` set new \<subseteq> A"
  using assms unfolding leads_def by blast

lemma later_step: "rest st = c # cs \<Longrightarrow> later st (st\<lparr>pos := Suc (pos st), rest := cs\<rparr>)"
  unfolding later_def by (intro exI [of _ 1]) simp

lemma rmatch_sound: "sound (rmatch r) (sureGroups r) (allGroups r)"
proof (induction r)
  case (Cls rs)
  show ?case
  proof (rule soundI)
    fix k st res assume m: "rmatch (Cls rs) k st = Some res"
    then obtain c cs where r: "rest st = c # cs" and i: "inRanges c rs"
      and k: "k (st\<lparr>pos := Suc (pos st), rest := cs\<rparr>) = Some res"
      by (auto split: list.splits if_splits)
    have "leads (rmatch (Cls rs)) (sureGroups (Cls rs)) (allGroups (Cls rs)) st
            (st\<lparr>pos := Suc (pos st), rest := cs\<rparr>)"
      by (rule leadsI [where new = "[]"]) (use r i in \<open>simp_all add: later_step\<close>)
    then show "\<exists>st'. k st' = Some res
        \<and> leads (rmatch (Cls rs)) (sureGroups (Cls rs)) (allGroups (Cls rs)) st st'"
      using k by blast
  qed
next
  case (NotCls rs)
  show ?case
  proof (rule soundI)
    fix k st res assume m: "rmatch (NotCls rs) k st = Some res"
    then obtain c cs where r: "rest st = c # cs" and i: "\<not> inRanges c rs"
      and k: "k (st\<lparr>pos := Suc (pos st), rest := cs\<rparr>) = Some res"
      by (auto split: list.splits if_splits)
    have "leads (rmatch (NotCls rs)) (sureGroups (NotCls rs)) (allGroups (NotCls rs)) st
            (st\<lparr>pos := Suc (pos st), rest := cs\<rparr>)"
      by (rule leadsI [where new = "[]"]) (use r i in \<open>simp_all add: later_step\<close>)
    then show "\<exists>st'. k st' = Some res
        \<and> leads (rmatch (NotCls rs)) (sureGroups (NotCls rs)) (allGroups (NotCls rs)) st st'"
      using k by blast
  qed
next
  case Eps
  show ?case
  proof (rule soundI)
    fix k st res assume "rmatch Eps k st = Some res"
    then have k: "k st = Some res" by simp
    have "leads (rmatch Eps) (sureGroups Eps) (allGroups Eps) st st"
      by (rule leadsI [where new = "[]"]) (simp_all add: later_refl)
    then show "\<exists>st'. k st' = Some res \<and> leads (rmatch Eps) (sureGroups Eps) (allGroups Eps) st st'"
      using k by blast
  qed
next
  case (Seq a b)
  show ?case
  proof (rule soundI)
    fix k st res assume "rmatch (Seq a b) k st = Some res"
    then have "rmatch a (rmatch b k) st = Some res" by simp
    from soundD [OF Seq.IH(1) this] obtain st1 where
      b: "rmatch b k st1 = Some res" and la: "leads (rmatch a) (sureGroups a) (allGroups a) st st1"
      by blast
    from soundD [OF Seq.IH(2) b] obtain st2 where
      k: "k st2 = Some res" and lb: "leads (rmatch b) (sureGroups b) (allGroups b) st1 st2"
      by blast
    from la obtain n1 where a1: "\<And>k :: mstate \<Rightarrow> mstate option. k st1 \<noteq> None \<Longrightarrow> rmatch a k st \<noteq> None"
      and a2: "later st st1" and a3: "caps st1 = n1 @ caps st"
      and a4: "sureGroups a \<subseteq> fst ` set n1" and a5: "fst ` set n1 \<subseteq> allGroups a"
      by (rule leadsE) blast
    from lb obtain n2 where b1: "\<And>k :: mstate \<Rightarrow> mstate option. k st2 \<noteq> None \<Longrightarrow> rmatch b k st1 \<noteq> None"
      and b2: "later st1 st2" and b3: "caps st2 = n2 @ caps st1"
      and b4: "sureGroups b \<subseteq> fst ` set n2" and b5: "fst ` set n2 \<subseteq> allGroups b"
      by (rule leadsE) blast
    have "leads (rmatch (Seq a b)) (sureGroups (Seq a b)) (allGroups (Seq a b)) st st2"
    proof (rule leadsI [where new = "n2 @ n1"])
      fix k2 :: "mstate \<Rightarrow> mstate option" assume "k2 st2 \<noteq> None"
      then have "rmatch b k2 st1 \<noteq> None" by (rule b1)
      then have "rmatch a (rmatch b k2) st \<noteq> None" by (rule a1)
      then show "rmatch (Seq a b) k2 st \<noteq> None" by simp
    next
      show "later st st2" using a2 b2 by (rule later_trans)
      show "caps st2 = (n2 @ n1) @ caps st" using a3 b3 by simp
      show "sureGroups (Seq a b) \<subseteq> fst ` set (n2 @ n1)" using a4 b4 by auto
      show "fst ` set (n2 @ n1) \<subseteq> allGroups (Seq a b)" using a5 b5 by auto
    qed
    then show "\<exists>st'. k st' = Some res
        \<and> leads (rmatch (Seq a b)) (sureGroups (Seq a b)) (allGroups (Seq a b)) st st'"
      using k by blast
  qed
next
  case (Alt a b)
  show ?case
  proof (rule soundI)
    fix k st res assume m: "rmatch (Alt a b) k st = Some res"
    have alt: "rmatch (Alt a b) k2 st \<noteq> None"
      if "rmatch a k2 st \<noteq> None \<or> rmatch b k2 st \<noteq> None" for k2
      using that by (auto split: option.splits)
    from m have "rmatch a k st = Some res \<or> rmatch b k st = Some res"
      by (auto split: option.splits)
    then show "\<exists>st'. k st' = Some res
        \<and> leads (rmatch (Alt a b)) (sureGroups (Alt a b)) (allGroups (Alt a b)) st st'"
    proof
      assume "rmatch a k st = Some res"
      from soundD [OF Alt.IH(1) this] obtain st1 where
        k: "k st1 = Some res" and la: "leads (rmatch a) (sureGroups a) (allGroups a) st st1"
        by blast
      from la obtain n1 where a1: "\<And>k :: mstate \<Rightarrow> mstate option. k st1 \<noteq> None \<Longrightarrow> rmatch a k st \<noteq> None"
        and a2: "later st st1" and a3: "caps st1 = n1 @ caps st"
        and a4: "sureGroups a \<subseteq> fst ` set n1" and a5: "fst ` set n1 \<subseteq> allGroups a"
        by (rule leadsE) blast
      have "leads (rmatch (Alt a b)) (sureGroups (Alt a b)) (allGroups (Alt a b)) st st1"
        by (rule leadsI [where new = n1]) (use a1 a2 a3 a4 a5 alt in auto)
      then show ?thesis using k by blast
    next
      assume "rmatch b k st = Some res"
      from soundD [OF Alt.IH(2) this] obtain st1 where
        k: "k st1 = Some res" and la: "leads (rmatch b) (sureGroups b) (allGroups b) st st1"
        by blast
      from la obtain n1 where a1: "\<And>k :: mstate \<Rightarrow> mstate option. k st1 \<noteq> None \<Longrightarrow> rmatch b k st \<noteq> None"
        and a2: "later st st1" and a3: "caps st1 = n1 @ caps st"
        and a4: "sureGroups b \<subseteq> fst ` set n1" and a5: "fst ` set n1 \<subseteq> allGroups b"
        by (rule leadsE) blast
      have "leads (rmatch (Alt a b)) (sureGroups (Alt a b)) (allGroups (Alt a b)) st st1"
        by (rule leadsI [where new = n1]) (use a1 a2 a3 a4 a5 alt in auto)
      then show ?thesis using k by blast
    qed
  qed
next
  case (Rep mn mx g a)
  show ?case
  proof (rule soundI)
    fix k st res assume "rmatch (Rep mn mx g a) k st = Some res"
    then have "rep (rmatch a) (mn + length (rest st)) mn mx g k st = Some res" by simp
    from rep_sound [OF Rep.IH this] obtain st1 where k: "k st1 = Some res"
      and l: "leads (\<lambda>k. rep (rmatch a) (mn + length (rest st)) mn mx g k)
                (if 0 < mn \<and> mx \<noteq> Some 0 then sureGroups a else {}) (allGroups a) st st1"
      by blast
    from l obtain n1 where
      a1: "\<And>k :: mstate \<Rightarrow> mstate option. k st1 \<noteq> None \<Longrightarrow> rep (rmatch a) (mn + length (rest st)) mn mx g k st \<noteq> None"
      and a2: "later st st1" and a3: "caps st1 = n1 @ caps st"
      and a4: "(if 0 < mn \<and> mx \<noteq> Some 0 then sureGroups a else {}) \<subseteq> fst ` set n1"
      and a5: "fst ` set n1 \<subseteq> allGroups a"
      by (rule leadsE) blast
    have "leads (rmatch (Rep mn mx g a)) (sureGroups (Rep mn mx g a)) (allGroups (Rep mn mx g a)) st st1"
    proof (rule leadsI [where new = n1])
      fix k2 :: "mstate \<Rightarrow> mstate option" assume "k2 st1 \<noteq> None"
      then have "rep (rmatch a) (mn + length (rest st)) mn mx g k2 st \<noteq> None" by (rule a1)
      then show "rmatch (Rep mn mx g a) k2 st \<noteq> None" by simp
    next
      show "later st st1" by (rule a2)
      show "caps st1 = n1 @ caps st" by (rule a3)
      show "sureGroups (Rep mn mx g a) \<subseteq> fst ` set n1" using a4 by simp
      show "fst ` set n1 \<subseteq> allGroups (Rep mn mx g a)" using a5 by simp
    qed
    then show "\<exists>st'. k st' = Some res
        \<and> leads (rmatch (Rep mn mx g a)) (sureGroups (Rep mn mx g a)) (allGroups (Rep mn mx g a)) st st'"
      using k by blast
  qed
next
  case (Grp n a)
  show ?case
  proof (rule soundI)
    fix k st res assume "rmatch (Grp n a) k st = Some res"
    then have "rmatch a (\<lambda>st'. k (st'\<lparr>caps := (n, take (pos st' - pos st) (rest st)) # caps st'\<rparr>)) st
        = Some res" by simp
    from soundD [OF Grp.IH this] obtain st1 where
      k: "k (st1\<lparr>caps := (n, take (pos st1 - pos st) (rest st)) # caps st1\<rparr>) = Some res"
      and la: "leads (rmatch a) (sureGroups a) (allGroups a) st st1"
      by blast
    let ?st2 = "st1\<lparr>caps := (n, take (pos st1 - pos st) (rest st)) # caps st1\<rparr>"
    from la obtain n1 where a1: "\<And>k :: mstate \<Rightarrow> mstate option. k st1 \<noteq> None \<Longrightarrow> rmatch a k st \<noteq> None"
      and a2: "later st st1" and a3: "caps st1 = n1 @ caps st"
      and a4: "sureGroups a \<subseteq> fst ` set n1" and a5: "fst ` set n1 \<subseteq> allGroups a"
      by (rule leadsE) blast
    have "leads (rmatch (Grp n a)) (sureGroups (Grp n a)) (allGroups (Grp n a)) st ?st2"
    proof (rule leadsI [where new = "(n, take (pos st1 - pos st) (rest st)) # n1"])
      fix k2 :: "mstate \<Rightarrow> mstate option" assume "k2 ?st2 \<noteq> None"
      then have "(\<lambda>st'. k2 (st'\<lparr>caps := (n, take (pos st' - pos st) (rest st)) # caps st'\<rparr>)) st1 \<noteq> None"
        by simp
      then have "rmatch a (\<lambda>st'. k2 (st'\<lparr>caps := (n, take (pos st' - pos st) (rest st)) # caps st'\<rparr>)) st \<noteq> None"
        by (rule a1)
      then show "rmatch (Grp n a) k2 st \<noteq> None" by simp
    next
      show "later st ?st2" using a2 by (simp add: later_def)
      show "caps ?st2 = ((n, take (pos st1 - pos st) (rest st)) # n1) @ caps st" using a3 by simp
      show "sureGroups (Grp n a) \<subseteq> fst ` set ((n, take (pos st1 - pos st) (rest st)) # n1)"
        using a4 by auto
      show "fst ` set ((n, take (pos st1 - pos st) (rest st)) # n1) \<subseteq> allGroups (Grp n a)"
        using a5 by auto
    qed
    then show "\<exists>st'. k st' = Some res
        \<and> leads (rmatch (Grp n a)) (sureGroups (Grp n a)) (allGroups (Grp n a)) st st'"
      using k by blast
  qed
next
  case (Look a)
  show ?case
  proof (rule soundI)
    fix k st res assume m: "rmatch (Look a) k st = Some res"
    then obtain st1 where i: "rmatch a Some st = Some st1" and k: "k (st\<lparr>caps := caps st1\<rparr>) = Some res"
      by (auto split: option.splits)
    from soundD [OF Look.IH i] obtain st1' where "Some st1' = Some st1"
      and la: "leads (rmatch a) (sureGroups a) (allGroups a) st st1'"
      by blast
    then have la: "leads (rmatch a) (sureGroups a) (allGroups a) st st1" by simp
    from la obtain n1 where a3: "caps st1 = n1 @ caps st"
      and a4: "sureGroups a \<subseteq> fst ` set n1" and a5: "fst ` set n1 \<subseteq> allGroups a"
      by (rule leadsE) blast
    have "leads (rmatch (Look a)) (sureGroups (Look a)) (allGroups (Look a)) st (st\<lparr>caps := caps st1\<rparr>)"
      by (rule leadsI [where new = n1]) (use i a3 a4 a5 in \<open>simp_all add: later_def\<close>)
    then show "\<exists>st'. k st' = Some res
        \<and> leads (rmatch (Look a)) (sureGroups (Look a)) (allGroups (Look a)) st st'"
      using k by blast
  qed
next
  case Bol
  show ?case
  proof (rule soundI)
    fix k st res assume "rmatch Bol k st = Some res"
    then have p: "pos st = 0" and k: "k st = Some res" by (auto split: if_splits)
    have "leads (rmatch Bol) (sureGroups Bol) (allGroups Bol) st st"
      by (rule leadsI [where new = "[]"]) (use p in \<open>simp_all add: later_refl\<close>)
    then show "\<exists>st'. k st' = Some res \<and> leads (rmatch Bol) (sureGroups Bol) (allGroups Bol) st st'"
      using k by blast
  qed
next
  case Eol
  show ?case
  proof (rule soundI)
    fix k st res assume "rmatch Eol k st = Some res"
    then have p: "rest st = []" and k: "k st = Some res" by (auto split: if_splits)
    have "leads (rmatch Eol) (sureGroups Eol) (allGroups Eol) st st"
      by (rule leadsI [where new = "[]"]) (use p in \<open>simp_all add: later_refl\<close>)
    then show "\<exists>st'. k st' = Some res \<and> leads (rmatch Eol) (sureGroups Eol) (allGroups Eol) st st'"
      using k by blast
  qed
qed

lemma adv_0: "adv 0 st = st"
  by (simp add: adv_def)

lemma adv_adv: "adv m (adv n st) = adv (n + m) st"
  by (simp add: adv_def add.commute)

lemma anyUnit_step:
  "rmatch anyUnit k st = (case rest st of [] \<Rightarrow> None | c # cs \<Rightarrow> k (adv (Suc 0) st))"
  by (auto simp: anyUnit_def inRanges_def adv_def split: list.splits)


section \<open>Lemmas: the parsers\<close>


lemma searchFrom_groups:
  "searchFrom r i s = Some m \<Longrightarrow> sureGroups r \<subseteq> fst ` set (groups m)"
proof (induction s arbitrary: i)
  case Nil
  then obtain st where a: "rmatch r Some \<lparr>pos = i, rest = [], caps = []\<rparr> = Some st"
    and m: "m = \<lparr>index = i, whole = [], groups = caps st\<rparr>"
    by (auto split: option.splits)
  from soundD [OF rmatch_sound a] obtain st' where "Some st' = Some st"
    and l: "leads (rmatch r) (sureGroups r) (allGroups r) \<lparr>pos = i, rest = [], caps = []\<rparr> st'"
    by blast
  then show ?case using m by (auto simp: leads_def)
next
  case (Cons c cs)
  show ?case
  proof (cases "rmatch r Some \<lparr>pos = i, rest = c # cs, caps = []\<rparr>")
    case None
    then show ?thesis using Cons by simp
  next
    case (Some st)
    then have m: "groups m = caps st" using Cons.prems by auto
    from soundD [OF rmatch_sound Some] obtain st' where "Some st' = Some st"
      and l: "leads (rmatch r) (sureGroups r) (allGroups r) \<lparr>pos = i, rest = c # cs, caps = []\<rparr> st'"
      by blast
    then show ?thesis using m by (auto simp: leads_def)
  qed
qed

lemma group_defined:
  assumes "matchRegex r s = Some m" and "n \<in> sureGroups r"
  shows "\<exists>t. matchGroup m n = Some t"
proof -
  have "n \<in> fst ` set (groups m)"
    using searchFrom_groups [of r 0 s m] assms by (auto simp: matchRegex_def)
  then show ?thesis
    unfolding matchGroup_def by (metis map_of_eq_None_iff not_Some_eq)
qed

lemmas rx_defs = seqs_def alts_def plus_def star_def lazyPlus_def chr_def chri_def bothCases_def
  space_def digit_def anyUnit_def dot_def

lemma sure_dateRange: "1 \<in> sureGroups dateRangeRegex" "2 \<in> sureGroups dateRangeRegex"
  by (simp_all add: dateRangeRegex_def rx_defs)

lemma sure_formats:
  "1 \<in> sureGroups pipeFormat" "2 \<in> sureGroups pipeFormat" "3 \<in> sureGroups pipeFormat"
  "1 \<in> sureGroups atFormat" "2 \<in> sureGroups atFormat" "3 \<in> sureGroups atFormat"
  "1 \<in> sureGroups commaFormat" "2 \<in> sureGroups commaFormat" "3 \<in> sureGroups commaFormat"
  by (simp_all add: pipeFormat_def atFormat_def commaFormat_def rx_defs)

lemma sure_workSection: "1 \<in> sureGroups workSectionRegex"
  by (simp add: workSectionRegex_def seqs_def)

lemma splitSpaces_nonempty: "splitSpaces s \<noteq> []"
  by (induction s rule: splitSpaces.induct) (auto split: list.splits)

lemma readNamedDate_ok: "\<exists>d. readNamedDate s = Inr d"
proof -
  obtain t ts where "splitSpaces (trim s) = t # ts"
    using splitSpaces_nonempty [of "trim s"] by (cases "splitSpaces (trim s)") auto
  then show ?thesis
    by (auto simp: readNamedDate_def Let_def elemAt_def getMonthIndex_def split: option.splits)
qed

lemma parse_cases:
  "parseEmploymentEntry now position companyName dateRange = Inr None \<or>
   (\<exists>e. parseEmploymentEntry now position companyName dateRange = Inr (Some e)
        \<and> startDate e \<le> endDate e \<and> jobTitle e = Some position \<and> company e = Some companyName)"
proof (cases "matchRegex dateRangeRegex dateRange")
  case None
  then show ?thesis by (simp add: parseEmploymentEntry_def)
next
  case (Some m)
  from group_defined [OF Some sure_dateRange(1)] obtain s where g1: "matchGroup m 1 = Some s" by blast
  define e where "e = (if truthy (matchGroup m 2) then the (matchGroup m 2) else str ''present'')"
  obtain sd where sd: "(if testRegex numericDateOnly s then Inr (readNumericDate s)
                      else readNamedDate s) = Inr sd"
    using readNamedDate_ok [of s] by (cases "testRegex numericDateOnly s") auto
  have "\<exists>ed. (if testRegex presentRegex e then Inr (Some now)
                           else if testRegex numericDateOnly e
                           then Inr (readNumericDate e)
                           else if e \<noteq> [] then readNamedDate e
                           else Inr (Some now)) = Inr ed"
    using readNamedDate_ok [of e] by simp
  then obtain ed where ed: "(if testRegex presentRegex e then Inr (Some now)
                           else if testRegex numericDateOnly e
                           then Inr (readNumericDate e)
                           else if e \<noteq> [] then readNamedDate e
                           else Inr (Some now)) = Inr ed" by blast
  show ?thesis
    unfolding parseEmploymentEntry_def Some g1 Let_def option.case e_def [symmetric] sd ed sum.case
    by (auto split: option.splits)
qed

lemma rmatch_Seq_fun: "rmatch (Seq a b) k = rmatch a (rmatch b k)"
  by (rule ext) simp

lemma workSectionRegex_unfold:
  "workSectionRegex =
     Seq sectionHeading (Seq headingTail
       (Seq (Grp 1 (Rep 1 None False anyUnit)) (Seq (Look sectionEnd) Eps)))"
  by (simp add: workSectionRegex_def seqs_def lazyPlus_def)

lemma allGroups_sectionEnd: "allGroups sectionEnd = {}"
  by (simp add: sectionEnd_def rx_defs)

lemma rep_numeral:
  "rep f (numeral v) mn mx g k st =
     (if mx = Some 0 then k st
      else if 0 < mn
      then f (rep f (pred_numeral v) (mn - 1) (map_option (\<lambda>m. m - 1) mx) g k) st
      else if g
      then (case f (\<lambda>st'. if pos st' = pos st then None
                           else rep f (pred_numeral v) 0 (map_option (\<lambda>m. m - 1) mx) g k st') st of
              Some r \<Rightarrow> Some r
            | None \<Rightarrow> k st)
      else (case k st of
              Some r \<Rightarrow> Some r
            | None \<Rightarrow> f (\<lambda>st'. if pos st' = pos st then None
                                else rep f (pred_numeral v) 0 (map_option (\<lambda>m. m - 1) mx) g k st') st))"
  using rep.simps(2) [of f "pred_numeral v" mn mx g k st] by (simp only: numeral_eq_Suc)

lemma inRanges_numeral:
  "inRanges (numeral v) rs = list_ex (\<lambda>r. fst r \<le> numeral v \<and> numeral v \<le> snd r) rs"
  by (simp add: inRanges_def)

lemma inRanges_digit:
  "isDigit d \<Longrightarrow> inRanges d [(48, 57)]"
  "isDigit d \<Longrightarrow> list_all (\<lambda>r. snd r < 48 \<or> 57 < fst r) rs \<Longrightarrow> \<not> inRanges d rs"
  by (auto simp: inRanges_def isDigit_def list_all_iff list_ex_iff)

lemmas sym_defs = rx_defs spaceRanges_def inRanges_numeral matchRegex_def str_simps matchGroup_def
  testRegex_def rep_numeral inRanges_digit
















lemma tryFormat_cases:
  assumes "1 \<in> sureGroups f" "2 \<in> sureGroups f" "3 \<in> sureGroups f"
  shows "tryFormat now f line = Inr None \<or>
         (\<exists>e. tryFormat now f line = Inr (Some e) \<and> startDate e \<le> endDate e)"
proof (cases "matchRegex f line")
  case None
  then show ?thesis by (simp add: tryFormat_def)
next
  case (Some m)
  from group_defined [OF Some assms(1)] group_defined [OF Some assms(2)]
    group_defined [OF Some assms(3)]
  obtain a b c where "matchGroup m 1 = Some a" "matchGroup m 2 = Some b" "matchGroup m 3 = Some c"
    by blast
  then show ?thesis
    using parse_cases [of now "trim a" "trim b" "trim c"] Some by (auto simp: tryFormat_def)
qed

lemma processLine_cases:
  "processLine now line = Inr None \<or>
   (\<exists>e. processLine now line = Inr (Some e) \<and> startDate e \<le> endDate e)"
proof -
  let ?l = "trim line"
  have p: "tryFormat now pipeFormat ?l = Inr None \<or>
         (\<exists>e. tryFormat now pipeFormat ?l = Inr (Some e) \<and> startDate e \<le> endDate e)"
    by (rule tryFormat_cases) (rule sure_formats)+
  have a: "tryFormat now atFormat ?l = Inr None \<or>
         (\<exists>e. tryFormat now atFormat ?l = Inr (Some e) \<and> startDate e \<le> endDate e)"
    by (rule tryFormat_cases) (rule sure_formats)+
  have c: "tryFormat now commaFormat ?l = Inr None \<or>
         (\<exists>e. tryFormat now commaFormat ?l = Inr (Some e) \<and> startDate e \<le> endDate e)"
    by (rule tryFormat_cases) (rule sure_formats)+
  show ?thesis
    using p a c unfolding processLine_def Let_def by (auto split: sum.splits option.splits)
qed

lemma entriesOfLines_ok:
  "\<exists>es. entriesOfLines now lines acc = Inr es
        \<and> ((\<forall>p\<in>set acc. startDate p \<le> endDate p) \<longrightarrow> (\<forall>p\<in>set es. startDate p \<le> endDate p))"
proof (induction lines arbitrary: acc)
  case Nil
  then show ?case by simp
next
  case (Cons l ls)
  from processLine_cases [of now l] show ?case
  proof
    assume "processLine now l = Inr None"
    then show ?thesis using Cons.IH [of acc] by simp
  next
    assume "\<exists>e. processLine now l = Inr (Some e) \<and> startDate e \<le> endDate e"
    then obtain e where e: "processLine now l = Inr (Some e)" "startDate e \<le> endDate e" by blast
    from Cons.IH [of "acc @ [e]"] obtain es where
      "entriesOfLines now ls (acc @ [e]) = Inr es"
      "(\<forall>p\<in>set (acc @ [e]). startDate p \<le> endDate p) \<longrightarrow> (\<forall>p\<in>set es. startDate p \<le> endDate p)"
      by blast
    then show ?thesis using e by auto
  qed
qed

lemma entriesOfLines_append:
  "entriesOfLines now (xs @ ys) acc =
     (case entriesOfLines now xs acc of Inl e \<Rightarrow> Inl e | Inr es \<Rightarrow> entriesOfLines now ys es)"
  by (induction xs arbitrary: acc) (auto split: sum.splits option.splits)

lemma entriesOfLines_skip:
  assumes "processLine now line = Inr None"
  shows "entriesOfLines now (before @ line # after) acc = entriesOfLines now (before @ after) acc"
  using assms by (simp add: entriesOfLines_append split: sum.splits)

lemma extract_ok:
  "\<exists>es. extractStructuredEmploymentEntries now text = Inr es
        \<and> (\<forall>p\<in>set es. startDate p \<le> endDate p)"
proof (cases "matchRegex workSectionRegex text")
  case None
  then show ?thesis by (simp add: extractStructuredEmploymentEntries_def)
next
  case (Some m)
  from group_defined [OF Some sure_workSection] obtain w where w: "matchGroup m 1 = Some w" by blast
  from entriesOfLines_ok [of now "filter (\<lambda>line. length (trim line) > 0) (splitOn 10 w)" "[]"]
  show ?thesis using Some w by (auto simp: extractStructuredEmploymentEntries_def)
qed

lemma dedup_keeps_valid:
  assumes "deduplicateEmploymentPeriods ps = Inr out"
    and "\<forall>p\<in>set ps. startDate p \<le> endDate p"
  shows "\<forall>p\<in>set out. startDate p \<le> endDate p"
  using dedup_subset [OF assms(1)] assms(2) by blast

lemmas section_defs = workSectionRegex_def sectionHeading_def headingTail_def sectionEnd_def

lemma blank_line_section:
  "workSectionText blankLineResume = Some (str ''Developer | Acme | 01/2020 - 02/2021'')"
  by (simp add: workSectionText_def blankLineResume_def section_defs sym_defs)

section \<open>The section pattern and the description of the section\<close>

text \<open>
  What the matcher does on the parts of the section pattern, for any continuation: a
  word under the flag \<open>i\<close>, a greedy repetition of a class (the longest repetition whose
  continuation succeeds), the lazy repetition of \<open>[\s\S]\<close> (the shortest), the heading,
  the run after it, the group and the lookahead.
\<close>

lemma bothCases_lower:
  "97 \<le> c \<Longrightarrow> c \<le> 122 \<Longrightarrow>
   inRanges u (bothCases c) \<longleftrightarrow> (if 65 \<le> u \<and> u \<le> 90 then u + 32 else u) = c"
  by (auto simp: inRanges_def bothCases_def)

lemma chri_step:
  "rmatch (chri c) k st =
     (case rest st of [] \<Rightarrow> None
      | u # us \<Rightarrow> if inRanges u (bothCases (of_char c)) then k (adv (Suc 0) st) else None)"
  by (simp add: chri_def adv_def split: list.splits)

lemma wordAt_Nil: "wordAt [] xs"
  by (simp add: wordAt_def startsWith_def str_def)

lemma wordAt_Cons:
  "wordAt (c # cs) xs \<longleftrightarrow>
     (case xs of [] \<Rightarrow> False
      | u # us \<Rightarrow> (if 65 \<le> u \<and> u \<le> 90 then u + 32 else u) = of_char c \<and> wordAt cs us)"
  by (auto simp: wordAt_def startsWith_def toLowerCase_def str_def split: list.splits)

lemma liti_step:
  "\<forall>c\<in>set w. 97 \<le> (of_char c :: nat) \<and> (of_char c :: nat) \<le> 122 \<Longrightarrow>
   rmatch (liti w) k st = (if wordAt w (rest st) then k (adv (length w) st) else None)"
proof (induction w arbitrary: k st)
  case Nil
  then show ?case by (simp add: wordAt_Nil adv_0)
next
  case (Cons c cs)
  have c: "97 \<le> (of_char c :: nat)" "(of_char c :: nat) \<le> 122" using Cons.prems by simp_all
  have cs: "\<forall>c\<in>set cs. 97 \<le> (of_char c :: nat) \<and> (of_char c :: nat) \<le> 122"
    using Cons.prems by simp
  show ?case
  proof (cases "rest st")
    case Nil
    then show ?thesis by (simp add: chri_step wordAt_Cons)
  next
    case (Cons u us)
    have r: "rest (adv (Suc 0) st) = us" using Cons by (simp add: adv_def)
    show ?thesis
      using Cons r Cons.IH [OF cs, of k "adv (Suc 0) st"] bothCases_lower [OF c, of u]
      by (simp add: chri_step wordAt_Cons adv_adv)
  qed
qed

lemma cls_step:
  "rmatch (Cls rs) k st =
     (case rest st of [] \<Rightarrow> None
      | u # us \<Rightarrow> if inRanges u rs then k (adv (Suc 0) st) else None)"
  by (simp add: adv_def split: list.splits)

lemma rep_cls_min:
  "0 < mn \<Longrightarrow>
   rep (rmatch (Cls rs)) (Suc n) mn None True k st =
     (case rest st of [] \<Rightarrow> None
      | u # us \<Rightarrow> if inRanges u rs then rep (rmatch (Cls rs)) n (mn - 1) None True k (adv (Suc 0) st)
                  else None)"
  by (simp add: adv_def split: list.splits)

lemma rep_cls_greedy:
  "rep (rmatch (Cls rs)) (Suc n) 0 None True k st =
     (case (case rest st of [] \<Rightarrow> None
            | u # us \<Rightarrow> if inRanges u rs then rep (rmatch (Cls rs)) n 0 None True k (adv (Suc 0) st)
                        else None) of
        Some r \<Rightarrow> Some r
      | None \<Rightarrow> k st)"
  by (simp add: adv_def split: list.splits cong: if_cong)

lemma greedy_none:
  "mn + length (rest st) \<le> n \<Longrightarrow>
   (\<forall>j. mn \<le> j \<and> j \<le> length (takeWhile (\<lambda>u. inRanges u rs) (rest st)) \<longrightarrow> k (adv j st) = None) \<Longrightarrow>
   rep (rmatch (Cls rs)) n mn None True k st = None"
proof (induction n arbitrary: mn st)
  case 0
  then have "mn = 0" by simp
  moreover have "k (adv 0 st) = None" using 0 by simp
  ultimately show ?case by (simp add: adv_0)
next
  case (Suc n)
  show ?case
  proof (cases "rest st")
    case Nil
    then have z: "k (adv 0 st) = None" if "mn = 0" using Suc.prems(2) that by simp
    show ?thesis
    proof (cases "0 < mn")
      case True
      then show ?thesis using Nil by (simp add: rep_cls_min del: rep.simps rmatch.simps)
    next
      case False
      then have "mn = 0" by simp
      then show ?thesis using Nil z by (simp add: rep_cls_greedy adv_0 del: rep.simps rmatch.simps)
    qed
  next
    case (Cons u us)
    show ?thesis
    proof (cases "inRanges u rs")
      case False
      then have run: "length (takeWhile (\<lambda>u. inRanges u rs) (rest st)) = 0" using Cons by simp
      show ?thesis
      proof (cases "0 < mn")
        case True
        then show ?thesis using Cons False by (simp add: rep_cls_min del: rep.simps rmatch.simps)
      next
        case F: False
        then have "k (adv 0 st) = None" using Suc.prems(2) by simp
        then show ?thesis using F Cons False
          by (simp add: rep_cls_greedy adv_0 del: rep.simps rmatch.simps)
      qed
    next
      case True
      let ?st = "adv (Suc 0) st"
      have r: "rest ?st = us" using Cons by (simp add: adv_def)
      have run: "length (takeWhile (\<lambda>u. inRanges u rs) (rest st))
                 = Suc (length (takeWhile (\<lambda>u. inRanges u rs) us))"
        using Cons True by simp
      have fuel: "(mn - 1) + length (rest ?st) \<le> n" using Suc.prems(1) Cons r by simp
      have none: "\<forall>j. mn - 1 \<le> j \<and> j \<le> length (takeWhile (\<lambda>u. inRanges u rs) (rest ?st))
                    \<longrightarrow> k (adv j ?st) = None"
      proof (intro allI impI)
        fix j assume j: "mn - 1 \<le> j \<and> j \<le> length (takeWhile (\<lambda>u. inRanges u rs) (rest ?st))"
        then have "mn \<le> Suc j \<and> Suc j \<le> length (takeWhile (\<lambda>u. inRanges u rs) (rest st))"
          unfolding run r by arith
        then have "k (adv (Suc j) st) = None" using Suc.prems(2) by blast
        then show "k (adv j ?st) = None" by (simp add: adv_adv)
      qed
      have ih: "rep (rmatch (Cls rs)) n (mn - 1) None True k ?st = None"
        using Suc.IH [OF fuel none] .
      show ?thesis
      proof (cases "0 < mn")
        case T: True
        then show ?thesis using Cons True ih by (simp add: rep_cls_min del: rep.simps rmatch.simps)
      next
        case F: False
        then have mn: "mn = 0" by simp
        have "k (adv 0 st) = None" using Suc.prems(2) mn by simp
        then show ?thesis using mn Cons True ih
          by (simp add: rep_cls_greedy adv_0 del: rep.simps rmatch.simps)
      qed
    qed
  qed
qed

lemma greedy_last:
  "mn + length (rest st) \<le> n \<Longrightarrow> mn \<le> j \<Longrightarrow>
   j \<le> length (takeWhile (\<lambda>u. inRanges u rs) (rest st)) \<Longrightarrow>
   k (adv j st) \<noteq> None \<Longrightarrow>
   (\<forall>i. j < i \<and> i \<le> length (takeWhile (\<lambda>u. inRanges u rs) (rest st)) \<longrightarrow> k (adv i st) = None) \<Longrightarrow>
   rep (rmatch (Cls rs)) n mn None True k st = k (adv j st)"
proof (induction n arbitrary: mn st j)
  case 0
  then have "mn = 0" "rest st = []" by simp_all
  moreover from this have "j = 0" using 0 by simp
  ultimately show ?case by (simp add: adv_0)
next
  case (Suc n)
  let ?run = "\<lambda>xs. length (takeWhile (\<lambda>u. inRanges u rs) xs)"
  let ?st = "adv (Suc 0) st"
  show ?case
  proof (cases j)
    case j0: 0
    then have mn: "mn = 0" using Suc.prems(2) by simp
    have inner: "(case rest st of [] \<Rightarrow> None
            | u # us \<Rightarrow> if inRanges u rs then rep (rmatch (Cls rs)) n 0 None True k (adv (Suc 0) st)
                        else None) = None"
    proof (cases "rest st")
      case Nil
      then show ?thesis by simp
    next
      case (Cons u us)
      show ?thesis
      proof (cases "inRanges u rs")
        case False
        then show ?thesis using Cons by simp
      next
        case True
        have r: "rest ?st = us" using Cons by (simp add: adv_def)
        have run: "?run (rest st) = Suc (?run us)" using Cons True by simp
        have fuel: "0 + length (rest ?st) \<le> n" using Suc.prems(1) Cons r by simp
        have none: "\<forall>i. 0 \<le> i \<and> i \<le> ?run (rest ?st) \<longrightarrow> k (adv i ?st) = None"
        proof (intro allI impI)
          fix i assume "0 \<le> i \<and> i \<le> ?run (rest ?st)"
          then have "j < Suc i \<and> Suc i \<le> ?run (rest st)" using run r j0 by simp
          then have "k (adv (Suc i) st) = None" using Suc.prems(5) by blast
          then show "k (adv i ?st) = None" by (simp add: adv_adv)
        qed
        have "rep (rmatch (Cls rs)) n 0 None True k ?st = None"
          using greedy_none [OF fuel none] .
        then show ?thesis using Cons True by simp
      qed
    qed
    show ?thesis unfolding mn j0 rep_cls_greedy inner by (simp add: adv_0)
  next
    case (Suc j')
    obtain u us where Cons: "rest st = u # us" and True: "inRanges u rs"
      using Suc.prems(3) Suc by (cases "rest st") (auto split: if_splits)
    have r: "rest ?st = us" using Cons by (simp add: adv_def)
    have run: "?run (rest st) = Suc (?run us)" using Cons True by simp
    have fuel: "(mn - 1) + length (rest ?st) \<le> n" using Suc.prems(1) Cons r by simp
    have a: "mn - 1 \<le> j'" using Suc.prems(2) Suc by simp
    have b: "j' \<le> ?run (rest ?st)" using Suc.prems(3) Suc run r by simp
    have c: "k (adv j' ?st) \<noteq> None" using Suc.prems(4) Suc by (simp add: adv_adv)
    have d: "\<forall>i. j' < i \<and> i \<le> ?run (rest ?st) \<longrightarrow> k (adv i ?st) = None"
    proof (intro allI impI)
      fix i assume "j' < i \<and> i \<le> ?run (rest ?st)"
      then have "j < Suc i \<and> Suc i \<le> ?run (rest st)" using run r Suc by simp
      then have "k (adv (Suc i) st) = None" using Suc.prems(5) by blast
      then show "k (adv i ?st) = None" by (simp add: adv_adv)
    qed
    have ih: "rep (rmatch (Cls rs)) n (mn - 1) None True k ?st = k (adv j st)"
      using Suc.IH [OF fuel a b c d] Suc by (simp add: adv_adv del: rmatch.simps)
    show ?thesis
    proof (cases "0 < mn")
      case T: True
      then show ?thesis using Cons True ih by (simp add: rep_cls_min del: rep.simps rmatch.simps)
    next
      case F: False
      then have mn: "mn = 0" by simp
      obtain res where res: "k (adv j st) = Some res" using Suc.prems(4) by auto
      show ?thesis using mn Cons True ih res
        by (simp add: rep_cls_greedy del: rep.simps rmatch.simps)
    qed
  qed
qed

lemma rep_any_lazy:
  "rep (rmatch anyUnit) (Suc n) 0 None False k st =
     (case k st of
        Some r \<Rightarrow> Some r
      | None \<Rightarrow> (case rest st of [] \<Rightarrow> None
                  | c # cs \<Rightarrow> rep (rmatch anyUnit) n 0 None False k (adv (Suc 0) st)))"
  by (simp add: anyUnit_def inRanges_def adv_def split: list.splits option.splits cong: if_cong)

lemma lazy_first:
  "length (rest st) \<le> n \<Longrightarrow> m \<le> length (rest st) \<Longrightarrow> k (adv m st) \<noteq> None \<Longrightarrow>
   (\<forall>j<m. k (adv j st) = None) \<Longrightarrow>
   rep (rmatch anyUnit) n 0 None False k st = k (adv m st)"
proof (induction n arbitrary: st m)
  case 0
  then have "m = 0" by simp
  then show ?case by (simp add: adv_0)
next
  case (Suc n)
  show ?case
  proof (cases m)
    case 0
    then obtain r where "k st = Some r" using Suc.prems(3) by (auto simp: adv_0)
    then show ?thesis unfolding rep_any_lazy using 0 by (simp add: adv_0)
  next
    case (Suc m')
    then have none: "k st = None" using Suc.prems(4) by (auto simp: adv_0 dest: spec [of _ 0])
    obtain c cs where r: "rest st = c # cs" using Suc.prems(2) Suc by (cases "rest st") auto
    let ?st = "adv (Suc 0) st"
    have rr: "rest ?st = cs" using r by (simp add: adv_def)
    have a: "length (rest ?st) \<le> n" using Suc.prems(1) r rr by simp
    have b: "m' \<le> length (rest ?st)" using Suc.prems(2) Suc r rr by simp
    have c: "k (adv m' ?st) \<noteq> None" using Suc.prems(3) Suc by (simp add: adv_adv)
    have d: "\<forall>j<m'. k (adv j ?st) = None"
    proof (intro allI impI)
      fix j assume "j < m'"
      then have "Suc j < m" using Suc by simp
      then have "k (adv (Suc j) st) = None" using Suc.prems(4) by blast
      then show "k (adv j ?st) = None" by (simp add: adv_adv)
    qed
    have "rep (rmatch anyUnit) n 0 None False k ?st = k (adv m st)"
      using Suc.IH [OF a b c d] Suc by (simp add: adv_adv del: rmatch.simps)
    then show ?thesis unfolding rep_any_lazy using none r by simp
  qed
qed

lemma greedy_iff:
  assumes "mn + length (rest st) \<le> n"
  shows "rep (rmatch (Cls rs)) n mn None True k st \<noteq> None \<longleftrightarrow>
         (\<exists>j. mn \<le> j \<and> j \<le> length (takeWhile (\<lambda>u. inRanges u rs) (rest st)) \<and> k (adv j st) \<noteq> None)"
proof
  assume some: "rep (rmatch (Cls rs)) n mn None True k st \<noteq> None"
  show "\<exists>j. mn \<le> j \<and> j \<le> length (takeWhile (\<lambda>u. inRanges u rs) (rest st)) \<and> k (adv j st) \<noteq> None"
  proof (rule ccontr)
    assume "\<not> (\<exists>j. mn \<le> j \<and> j \<le> length (takeWhile (\<lambda>u. inRanges u rs) (rest st))
                  \<and> k (adv j st) \<noteq> None)"
    then have "\<forall>j. mn \<le> j \<and> j \<le> length (takeWhile (\<lambda>u. inRanges u rs) (rest st))
                  \<longrightarrow> k (adv j st) = None" by simp
    with assms have "rep (rmatch (Cls rs)) n mn None True k st = None" by (rule greedy_none)
    then show False using some by simp
  qed
next
  let ?run = "length (takeWhile (\<lambda>u. inRanges u rs) (rest st))"
  let ?P = "\<lambda>j. mn \<le> j \<and> j \<le> ?run \<and> k (adv j st) \<noteq> None"
  assume "\<exists>j. ?P j"
  then obtain j0 where j0: "?P j0" by blast
  have bound: "?P y \<Longrightarrow> y \<le> ?run" for y by simp
  define g where "g = (GREATEST j. ?P j)"
  have g: "?P g" unfolding g_def using j0 bound by (rule GreatestI_nat)
  have top: "\<forall>i. g < i \<and> i \<le> ?run \<longrightarrow> k (adv i st) = None"
  proof (intro allI impI)
    fix i assume i: "g < i \<and> i \<le> ?run"
    show "k (adv i st) = None"
    proof (rule ccontr)
      assume "k (adv i st) \<noteq> None"
      then have "?P i" using i g by simp
      then have "i \<le> g" unfolding g_def using bound by (rule Greatest_le_nat)
      then show False using i by simp
    qed
  qed
  from g have g1: "mn \<le> g" and g2: "g \<le> ?run" and g3: "k (adv g st) \<noteq> None" by simp_all
  have "rep (rmatch (Cls rs)) n mn None True k st = k (adv g st)"
    using assms g1 g2 g3 top by (rule greedy_last)
  then show "rep (rmatch (Cls rs)) n mn None True k st \<noteq> None" using g by simp
qed

lemma alt_iff:
  "rmatch (Alt a b) k st \<noteq> None \<longleftrightarrow> rmatch a k st \<noteq> None \<or> rmatch b k st \<noteq> None"
  by (simp split: option.splits)

lemma rmatch_Eps_fun: "rmatch Eps k = k"
  by (rule ext) simp

lemma rmatch_Rep_cls:
  "rmatch (Rep mn None True (Cls rs)) k st
     = rep (rmatch (Cls rs)) (mn + length (rest st)) mn None True k st"
  by simp

lemma isSpace_fun: "(\<lambda>u. inRanges u spaceRanges) = isSpace"
  by (rule ext) (simp add: isSpace_def)

lemma isSpace_10: "isSpace 10"
  by (simp add: isSpace_def inRanges_def spaceRanges_def)

lemma rest_adv: "rest (adv n st) = drop n (rest st)"
  by (simp add: adv_def)

lemma caps_adv: "caps (adv n st) = caps st"
  by (simp add: adv_def)

lemma lf_in_run:
  "(\<exists>j. j \<le> length (takeWhile isSpace cs) \<and> j < length cs \<and> cs ! j = 10)
     \<longleftrightarrow> 10 \<in> set (takeWhile isSpace cs)"
proof
  assume "\<exists>j. j \<le> length (takeWhile isSpace cs) \<and> j < length cs \<and> cs ! j = 10"
  then obtain j where j: "j \<le> length (takeWhile isSpace cs)" "j < length cs" "cs ! j = 10"
    by blast
  have "j \<noteq> length (takeWhile isSpace cs)"
  proof
    assume e: "j = length (takeWhile isSpace cs)"
    then have "length (takeWhile isSpace cs) < length cs" using j(2) by simp
    then have "\<not> isSpace (cs ! length (takeWhile isSpace cs))" by (rule nth_length_takeWhile)
    then show False using e j(3) isSpace_10 by simp
  qed
  then have lt: "j < length (takeWhile isSpace cs)" using j(1) by simp
  then have "takeWhile isSpace cs ! j = cs ! j" by (rule takeWhile_nth)
  then show "10 \<in> set (takeWhile isSpace cs)" using lt j(3) by (metis nth_mem)
next
  assume "10 \<in> set (takeWhile isSpace cs)"
  then obtain j where j: "j < length (takeWhile isSpace cs)" "takeWhile isSpace cs ! j = 10"
    by (auto simp: in_set_conv_nth)
  have "cs ! j = 10" using takeWhile_nth [OF j(1)] j(2) by simp
  moreover have "j < length cs" using j(1) length_takeWhile_le [of isSpace cs] by simp
  ultimately show "\<exists>j. j \<le> length (takeWhile isSpace cs) \<and> j < length cs \<and> cs ! j = 10"
    using j(1) by (intro exI [of _ j]) simp
qed

lemma lf_step: "rmatch (Cls [(10, 10)]) Some z \<noteq> None \<longleftrightarrow> (\<exists>us. rest z = 10 # us)"
  by (auto simp: inRanges_def split: list.splits)

lemma drop_lf: "(\<exists>us. drop j cs = 10 # us) \<longleftrightarrow> j < length cs \<and> cs ! j = 10"
proof (cases "j < length cs")
  case True
  then have "drop j cs = cs ! j # drop (Suc j) cs" by (simp add: Cons_nth_drop_Suc)
  then show ?thesis using True by auto
next
  case False
  then show ?thesis by simp
qed

lemma blank_iff:
  "rmatch (seqs [Cls [(10, 10)], star space, Cls [(10, 10)]]) Some y \<noteq> None
     \<longleftrightarrow> blankLineAt (rest y)"
proof -
  let ?K = "rmatch (Cls [(10, 10)]) Some"
  define S where "S = rmatch (Rep 0 None True (Cls spaceRanges)) ?K"
  have unf: "rmatch (seqs [Cls [(10, 10)], star space, Cls [(10, 10)]]) Some y
      = rmatch (Cls [(10, 10)]) S y"
    unfolding S_def
    by (simp add: seqs_def star_def space_def rmatch_Seq_fun rmatch_Eps_fun del: rmatch.simps)
  show ?thesis
  proof (cases "rest y")
    case Nil
    then show ?thesis unfolding unf cls_step by (simp add: blankLineAt_def)
  next
    case (Cons c cs)
    let ?z = "adv (Suc 0) y"
    have star: "S ?z \<noteq> None \<longleftrightarrow> 10 \<in> set (takeWhile isSpace cs)"
    proof -
      have "S ?z \<noteq> None
          \<longleftrightarrow> (\<exists>j. 0 \<le> j \<and> j \<le> length (takeWhile (\<lambda>u. inRanges u spaceRanges) (rest ?z))
                   \<and> ?K (adv j ?z) \<noteq> None)"
        unfolding S_def rmatch_Rep_cls by (rule greedy_iff) simp
      also have "\<dots> \<longleftrightarrow> (\<exists>j. j \<le> length (takeWhile isSpace cs) \<and> j < length cs \<and> cs ! j = 10)"
        unfolding lf_step rest_adv isSpace_fun drop_lf by (simp add: Cons)
      finally show ?thesis unfolding lf_in_run .
    qed
    show ?thesis unfolding unf cls_step using Cons star
      by (auto simp: blankLineAt_def inRanges_def)
  qed
qed

lemma sectionEnd_unfold:
  "sectionEnd =
     Alt (liti ''education'') (Alt (liti ''skills'') (Alt (liti ''certification'')
       (Alt (liti ''language'') (Alt (liti ''hobbies'')
         (Alt (seqs [Cls [(10, 10)], star space, Cls [(10, 10)]]) Eol)))))"
  by (simp add: sectionEnd_def alts_def)

lemma word_iff:
  "\<forall>c\<in>set w. 97 \<le> (of_char c :: nat) \<and> (of_char c :: nat) \<le> 122 \<Longrightarrow>
   rmatch (liti w) Some y \<noteq> None \<longleftrightarrow> wordAt w (rest y)"
  using liti_step [of w Some y] by simp

lemma sectionEnd_iff: "rmatch sectionEnd Some y \<noteq> None \<longleftrightarrow> sectionStops (rest y)"
proof -
  have e: "rmatch Eol Some y \<noteq> None \<longleftrightarrow> rest y = []" by simp
  have w1: "rmatch (liti ''education'') Some y \<noteq> None \<longleftrightarrow> wordAt ''education'' (rest y)"
    by (rule word_iff) simp
  have w2: "rmatch (liti ''skills'') Some y \<noteq> None \<longleftrightarrow> wordAt ''skills'' (rest y)"
    by (rule word_iff) simp
  have w3: "rmatch (liti ''certification'') Some y \<noteq> None \<longleftrightarrow> wordAt ''certification'' (rest y)"
    by (rule word_iff) simp
  have w4: "rmatch (liti ''language'') Some y \<noteq> None \<longleftrightarrow> wordAt ''language'' (rest y)"
    by (rule word_iff) simp
  have w5: "rmatch (liti ''hobbies'') Some y \<noteq> None \<longleftrightarrow> wordAt ''hobbies'' (rest y)"
    by (rule word_iff) simp
  show ?thesis
    unfolding sectionEnd_unfold alt_iff blank_iff e w1 w2 w3 w4 w5
    by (auto simp: sectionStops_def sectionWords_def)
qed

lemma sectionEnd_caps: "rmatch sectionEnd Some y = Some e \<Longrightarrow> caps e = caps y"
proof -
  assume r: "rmatch sectionEnd Some y = Some e"
  from soundD [OF rmatch_sound r] obtain s' where "Some s' = Some e"
    and l: "leads (rmatch sectionEnd) (sureGroups sectionEnd) (allGroups sectionEnd) y s'"
    by blast
  then show ?thesis by (auto simp: leads_def allGroups_sectionEnd)
qed

lemma look_end:
  "rmatch (Seq (Look sectionEnd) Eps) Some x = (if sectionStops (rest x) then Some x else None)"
proof (cases "rmatch sectionEnd Some x")
  case None
  then have "\<not> sectionStops (rest x)" using sectionEnd_iff [of x] by simp
  then show ?thesis using None by simp
next
  case (Some e)
  then have "sectionStops (rest x)" using sectionEnd_iff [of x] by simp
  moreover have "caps e = caps x" using Some by (rule sectionEnd_caps)
  ultimately show ?thesis using Some by simp
qed

lemma untilStop_props:
  "length (untilStop cs) \<le> length cs \<and> untilStop cs = take (length (untilStop cs)) cs
   \<and> sectionStops (drop (length (untilStop cs)) cs)
   \<and> (\<forall>j<length (untilStop cs). \<not> sectionStops (drop j cs))"
proof (induction cs)
  case Nil
  then show ?case by (simp add: sectionStops_def)
next
  case (Cons c cs)
  show ?case
  proof (cases "sectionStops (c # cs)")
    case True
    then show ?thesis by simp
  next
    case False
    have "\<not> sectionStops (drop j (c # cs))" if "j < Suc (length (untilStop cs))" for j
      using that False Cons.IH by (cases j) simp_all
    then show ?thesis using False Cons.IH by simp
  qed
qed

lemma group_none:
  "rest s = [] \<Longrightarrow> rmatch (Grp 1 (Rep 1 None False anyUnit)) k s = None"
  by (simp add: anyUnit_def)

lemma group_step:
  assumes r: "rest s = c # cs"
  shows "rmatch (Grp 1 (Rep 1 None False anyUnit)) (rmatch (Seq (Look sectionEnd) Eps) Some) s
         = Some ((adv (Suc (length (untilStop cs))) s)\<lparr>caps := (1, c # untilStop cs) # caps s\<rparr>)"
proof -
  define k' where "k' = (\<lambda>st'. rmatch (Seq (Look sectionEnd) Eps) Some
      (st'\<lparr>caps := (1, take (pos st' - pos s) (rest s)) # caps st'\<rparr>))"
  let ?m = "length (untilStop cs)"
  let ?s1 = "adv (Suc 0) s"
  have g: "rmatch (Grp 1 (Rep 1 None False anyUnit)) (rmatch (Seq (Look sectionEnd) Eps) Some) s
      = rmatch anyUnit (rep (rmatch anyUnit) (length (rest s)) 0 None False k') s"
    unfolding k'_def by (simp del: rmatch.simps(4,8) add: rmatch_Seq_fun)
  have g2: "rmatch anyUnit (rep (rmatch anyUnit) (length (rest s)) 0 None False k') s
      = rep (rmatch anyUnit) (length (rest s)) 0 None False k' ?s1"
    unfolding anyUnit_step using r by simp
  have kj: "k' (adv j ?s1) = (if sectionStops (drop j cs)
        then Some ((adv (Suc j) s)\<lparr>caps := (1, c # take j cs) # caps s\<rparr>) else None)" for j
    unfolding k'_def look_end by (simp add: adv_def r)
  have p: "?m \<le> length cs" "untilStop cs = take ?m cs" "sectionStops (drop ?m cs)"
    "\<forall>j<?m. \<not> sectionStops (drop j cs)"
    using untilStop_props [of cs] by simp_all
  have a: "length (rest ?s1) \<le> length (rest s)" by (simp add: rest_adv)
  have b: "?m \<le> length (rest ?s1)" using p(1) r by (simp add: rest_adv)
  have c: "k' (adv ?m ?s1) \<noteq> None" using p(3) by (simp add: kj)
  have d: "\<forall>j<?m. k' (adv j ?s1) = None" using p(4) by (simp add: kj)
  have "rep (rmatch anyUnit) (length (rest s)) 0 None False k' ?s1 = k' (adv ?m ?s1)"
    using a b c d by (rule lazy_first)
  also have "\<dots> = Some ((adv (Suc ?m) s)\<lparr>caps := (1, c # untilStop cs) # caps s\<rparr>)"
    using p(2,3) by (simp add: kj)
  finally show ?thesis unfolding g g2 .
qed

lemma space_not_letter:
  "isSpace u \<Longrightarrow> 97 \<le> c \<Longrightarrow> c \<le> 122 \<Longrightarrow> (if 65 \<le> u \<and> u \<le> 90 then u + 32 else u) \<noteq> c"
  by (auto simp: isSpace_def inRanges_def spaceRanges_def)

lemma wordAt_hd:
  "wordAt (c # cs) xs \<Longrightarrow>
   (case xs of [] \<Rightarrow> False | u # us \<Rightarrow> (if 65 \<le> u \<and> u \<le> 90 then u + 32 else u) = of_char c)"
  by (auto simp: wordAt_Cons split: list.splits)

lemma wordAt_length: "wordAt w xs \<Longrightarrow> length w \<le> length xs"
proof -
  assume "wordAt w xs"
  then have "take (length w) (toLowerCase xs) = str w" by (simp add: wordAt_def startsWith_def str_def)
  then have "length (take (length w) (toLowerCase xs)) = length w" by (simp add: str_def)
  then show ?thesis by (simp add: toLowerCase_def)
qed

lemma no_word_in_spaces:
  assumes v: "\<forall>c\<in>set v. 97 \<le> (of_char c :: nat) \<and> (of_char c :: nat) \<le> 122" and ne: "v \<noteq> []"
    and i: "i < length (takeWhile isSpace xs)"
  shows "\<not> wordAt v (drop i xs)"
proof
  assume w: "wordAt v (drop i xs)"
  obtain c cs where vc: "v = c # cs" using ne by (cases v) auto
  have c: "97 \<le> (of_char c :: nat)" "(of_char c :: nat) \<le> 122" using v vc by simp_all
  have il: "i < length xs" using i length_takeWhile_le [of isSpace xs] by simp
  then have d: "drop i xs = xs ! i # drop (Suc i) xs" by (simp add: Cons_nth_drop_Suc)
  have "takeWhile isSpace xs ! i \<in> set (takeWhile isSpace xs)" using i by (rule nth_mem)
  then have "isSpace (takeWhile isSpace xs ! i)" by (rule set_takeWhileD [THEN conjunct2])
  then have sp: "isSpace (xs ! i)" using takeWhile_nth [OF i] by simp
  from wordAt_hd [of c cs "drop i xs"] w vc d
  have "(if 65 \<le> xs ! i \<and> xs ! i \<le> 90 then xs ! i + 32 else xs ! i) = of_char c" by simp
  then show False using space_not_letter [OF sp c] by simp
qed

lemma two_words_step:
  assumes w: "\<forall>c\<in>set w. 97 \<le> (of_char c :: nat) \<and> (of_char c :: nat) \<le> 122"
    and v: "\<forall>c\<in>set v. 97 \<le> (of_char c :: nat) \<and> (of_char c :: nat) \<le> 122" and ne: "v \<noteq> []"
  shows "rmatch (seqs [liti w, plus space, liti v]) k st
         = (case twoWordsAt w v (rest st) of None \<Rightarrow> None | Some n \<Rightarrow> k (adv n st))"
proof -
  define K where "K = rmatch (liti v) k"
  define P where "P = rmatch (Rep 1 None True (Cls spaceRanges)) K"
  have unf: "rmatch (seqs [liti w, plus space, liti v]) k st = rmatch (liti w) P st"
    unfolding P_def K_def
    by (simp add: seqs_def plus_def space_def rmatch_Seq_fun rmatch_Eps_fun del: rmatch.simps liti.simps)
  have Kz: "K z = (if wordAt v (rest z) then k (adv (length v) z) else None)" for z
    unfolding K_def using v by (rule liti_step)
  let ?xs = "rest st"
  let ?s1 = "adv (length w) st"
  let ?run = "spaceRun (drop (length w) ?xs)"
  show ?thesis
  proof (cases "wordAt w ?xs")
    case False
    then show ?thesis unfolding unf liti_step [OF w] by (simp add: twoWordsAt_def Let_def)
  next
    case True
    have r1: "rest ?s1 = drop (length w) ?xs" by (simp add: rest_adv)
    have run: "length (takeWhile (\<lambda>u. inRanges u spaceRanges) (rest ?s1)) = ?run"
      unfolding isSpace_fun r1 spaceRun_def ..
    have fuel: "1 + length (rest ?s1) \<le> 1 + length (rest ?s1)" by simp
    have P1: "P ?s1 = rep (rmatch (Cls spaceRanges)) (1 + length (rest ?s1)) 1 None True K ?s1"
      unfolding P_def rmatch_Rep_cls ..
    have low: "K (adv i ?s1) = None" if "i < ?run" for i
    proof -
      have "\<not> wordAt v (drop i (drop (length w) ?xs))"
        using v ne that unfolding spaceRun_def by (rule no_word_in_spaces)
      then show ?thesis by (simp add: Kz rest_adv)
    qed
    have top: "K (adv ?run ?s1)
        = (if wordAt v (drop (length w + ?run) ?xs) then k (adv (length w + ?run + length v) st)
           else None)"
      by (simp add: Kz rest_adv adv_adv add.commute)
    have P2: "P ?s1 = (if 0 < ?run then K (adv ?run ?s1) else None)"
    proof (cases "0 < ?run")
      case False
      have "rep (rmatch (Cls spaceRanges)) (1 + length (rest ?s1)) 1 None True K ?s1 = None"
        using fuel by (rule greedy_none) (use False run in simp)
      then show ?thesis using False P1 by simp
    next
      case pos: True
      show ?thesis
      proof (cases "K (adv ?run ?s1) = None")
        case True
        have "rep (rmatch (Cls spaceRanges)) (1 + length (rest ?s1)) 1 None True K ?s1 = None"
          using fuel
        proof (rule greedy_none)
          show "\<forall>j. 1 \<le> j \<and> j \<le> length (takeWhile (\<lambda>u. inRanges u spaceRanges) (rest ?s1))
                  \<longrightarrow> K (adv j ?s1) = None"
          proof (intro allI impI)
            fix j assume "1 \<le> j \<and> j \<le> length (takeWhile (\<lambda>u. inRanges u spaceRanges) (rest ?s1))"
            then have "j < ?run \<or> j = ?run" unfolding run by auto
            then show "K (adv j ?s1) = None" using low True by auto
          qed
        qed
        then show ?thesis using True pos P1 by simp
      next
        case False
        have "rep (rmatch (Cls spaceRanges)) (1 + length (rest ?s1)) 1 None True K ?s1
            = K (adv ?run ?s1)"
          using fuel
        proof (rule greedy_last)
          show "1 \<le> ?run" using pos by simp
          show "?run \<le> length (takeWhile (\<lambda>u. inRanges u spaceRanges) (rest ?s1))"
            unfolding run by simp
          show "K (adv ?run ?s1) \<noteq> None" by (rule False)
          show "\<forall>i. ?run < i \<and> i \<le> length (takeWhile (\<lambda>u. inRanges u spaceRanges) (rest ?s1))
                  \<longrightarrow> K (adv i ?s1) = None"
            unfolding run by auto
        qed
        then show ?thesis using pos P1 by simp
      qed
    qed
    show ?thesis unfolding unf liti_step [OF w] using True P2 top
      by (simp add: twoWordsAt_def Let_def)
  qed
qed

lemma alt_step:
  "rmatch (Alt a b) k st = (case rmatch a k st of Some r \<Rightarrow> Some r | None \<Rightarrow> rmatch b k st)"
  by simp

lemma one_word_step:
  "\<forall>c\<in>set w. 97 \<le> (of_char c :: nat) \<and> (of_char c :: nat) \<le> 122 \<Longrightarrow>
   rmatch (liti w) k st = (case oneWordAt w (rest st) of None \<Rightarrow> None | Some n \<Rightarrow> k (adv n st))"
  by (simp add: liti_step oneWordAt_def del: liti.simps)

lemma first_letters:
  "wordAt ''work'' xs \<Longrightarrow> \<not> wordAt ''employment'' xs"
  "wordAt ''work'' xs \<Longrightarrow> \<not> wordAt ''professional'' xs"
  "wordAt ''employment'' xs \<Longrightarrow> \<not> wordAt ''professional'' xs"
  "wordAt ''professional'' xs \<Longrightarrow> \<not> wordAt ''work'' xs"
  "wordAt ''experience'' xs \<Longrightarrow> \<not> wordAt ''history'' xs"
  using wordAt_hd [of "CHR ''w''" "''ork''" xs] wordAt_hd [of "CHR ''e''" "''mployment''" xs]
    wordAt_hd [of "CHR ''p''" "''rofessional''" xs] wordAt_hd [of "CHR ''e''" "''xperience''" xs]
    wordAt_hd [of "CHR ''h''" "''istory''" xs]
  by (auto split: list.splits)

lemma twoWordsAt_SomeD:
  assumes "twoWordsAt w v xs = Some n"
  shows "wordAt w xs" and "wordAt v (drop (length w + spaceRun (drop (length w) xs)) xs)"
  using assms by (auto simp: twoWordsAt_def Let_def split: if_splits)

lemma twoWordsAt_None:
  "\<not> wordAt w xs \<Longrightarrow> twoWordsAt w v xs = None"
  "\<not> wordAt v (drop (length w + spaceRun (drop (length w) xs)) xs) \<Longrightarrow> twoWordsAt w v xs = None"
  by (simp_all add: twoWordsAt_def Let_def)

lemma oneWordAt_SomeD: "oneWordAt w xs = Some n \<Longrightarrow> wordAt w xs"
  by (auto simp: oneWordAt_def split: if_splits)

lemma oneWordAt_None: "\<not> wordAt w xs \<Longrightarrow> oneWordAt w xs = None"
  by (simp add: oneWordAt_def)

lemma heading_exclusive:
  "twoWordsAt ''work'' ''experience'' xs = Some n \<Longrightarrow>
     oneWordAt ''employment'' xs = None \<and> twoWordsAt ''professional'' ''experience'' xs = None
     \<and> twoWordsAt ''work'' ''history'' xs = None"
  "oneWordAt ''employment'' xs = Some n \<Longrightarrow>
     twoWordsAt ''professional'' ''experience'' xs = None \<and> twoWordsAt ''work'' ''history'' xs = None"
  "twoWordsAt ''professional'' ''experience'' xs = Some n \<Longrightarrow> twoWordsAt ''work'' ''history'' xs = None"
proof -
  {
    assume t: "twoWordsAt ''work'' ''experience'' xs = Some n"
    have w: "wordAt ''work'' xs" using t by (rule twoWordsAt_SomeD)
    have e: "wordAt ''experience'' (drop (length ''work'' + spaceRun (drop (length ''work'') xs)) xs)"
      using t by (rule twoWordsAt_SomeD)
    have 1: "oneWordAt ''employment'' xs = None"
      using first_letters(1) [OF w] by (rule oneWordAt_None)
    have 2: "twoWordsAt ''professional'' ''experience'' xs = None"
      using first_letters(2) [OF w] by (rule twoWordsAt_None)
    have 3: "twoWordsAt ''work'' ''history'' xs = None"
      using first_letters(5) [OF e] by (rule twoWordsAt_None)
    show "oneWordAt ''employment'' xs = None \<and> twoWordsAt ''professional'' ''experience'' xs = None
     \<and> twoWordsAt ''work'' ''history'' xs = None" using 1 2 3 by blast
  }
  {
    assume t: "oneWordAt ''employment'' xs = Some n"
    have w: "wordAt ''employment'' xs" using t by (rule oneWordAt_SomeD)
    have 1: "twoWordsAt ''professional'' ''experience'' xs = None"
      using first_letters(3) [OF w] by (rule twoWordsAt_None)
    have "\<not> wordAt ''work'' xs" using first_letters(1) [of xs] w by blast
    then have 2: "twoWordsAt ''work'' ''history'' xs = None" by (rule twoWordsAt_None)
    show "twoWordsAt ''professional'' ''experience'' xs = None \<and> twoWordsAt ''work'' ''history'' xs = None"
      using 1 2 by blast
  }
  {
    assume t: "twoWordsAt ''professional'' ''experience'' xs = Some n"
    have w: "wordAt ''professional'' xs" using t by (rule twoWordsAt_SomeD)
    show "twoWordsAt ''work'' ''history'' xs = None"
      using first_letters(4) [OF w] by (rule twoWordsAt_None)
  }
qed

lemma sectionHeading_unfold:
  "sectionHeading =
     Alt (seqs [liti ''work'', plus space, liti ''experience''])
       (Alt (liti ''employment'')
         (Alt (seqs [liti ''professional'', plus space, liti ''experience''])
           (seqs [liti ''work'', plus space, liti ''history''])))"
  by (simp add: sectionHeading_def alts_def)

lemma heading_step:
  "rmatch sectionHeading k st
     = (case headingLength (rest st) of None \<Rightarrow> None | Some n \<Rightarrow> k (adv n st))"
proof -
  have a: "rmatch (seqs [liti ''work'', plus space, liti ''experience'']) k st
      = (case twoWordsAt ''work'' ''experience'' (rest st) of None \<Rightarrow> None | Some n \<Rightarrow> k (adv n st))"
    by (rule two_words_step) simp_all
  have b: "rmatch (liti ''employment'') k st
      = (case oneWordAt ''employment'' (rest st) of None \<Rightarrow> None | Some n \<Rightarrow> k (adv n st))"
    by (rule one_word_step) simp
  have c: "rmatch (seqs [liti ''professional'', plus space, liti ''experience'']) k st
      = (case twoWordsAt ''professional'' ''experience'' (rest st) of None \<Rightarrow> None
         | Some n \<Rightarrow> k (adv n st))"
    by (rule two_words_step) simp_all
  have d: "rmatch (seqs [liti ''work'', plus space, liti ''history'']) k st
      = (case twoWordsAt ''work'' ''history'' (rest st) of None \<Rightarrow> None | Some n \<Rightarrow> k (adv n st))"
    by (rule two_words_step) simp_all
  show ?thesis
  proof (cases "twoWordsAt ''work'' ''experience'' (rest st)")
    case (Some n)
    then show ?thesis
      unfolding sectionHeading_unfold alt_step a b c d headingLength_def
      using heading_exclusive(1) [OF Some] by (simp split: option.splits)
  next
    case A: None
    show ?thesis
    proof (cases "oneWordAt ''employment'' (rest st)")
      case (Some n)
      then show ?thesis
        unfolding sectionHeading_unfold alt_step a b c d headingLength_def
        using A heading_exclusive(2) [OF Some] by (simp split: option.splits)
    next
      case B: None
      show ?thesis
      proof (cases "twoWordsAt ''professional'' ''experience'' (rest st)")
        case (Some n)
        then show ?thesis
          unfolding sectionHeading_unfold alt_step a b c d headingLength_def
          using A B heading_exclusive(3) [OF Some] by (simp split: option.splits)
      next
        case None
        then show ?thesis
          unfolding sectionHeading_unfold alt_step a b c d headingLength_def
          using A B by (simp split: option.splits)
      qed
    qed
  qed
qed

lemma headingLength_le: "headingLength xs = Some n \<Longrightarrow> n \<le> length xs"
proof -
  have two: "twoWordsAt w v xs = Some n \<Longrightarrow> n \<le> length xs" for w v
  proof -
    assume t: "twoWordsAt w v xs = Some n"
    let ?s = "spaceRun (drop (length w) xs)"
    from t have n: "n = length w + ?s + length v" and v: "wordAt v (drop (length w + ?s) xs)"
      by (auto simp: twoWordsAt_def Let_def split: if_splits)
    from wordAt_length [OF v] have "length v \<le> length xs - (length w + ?s)" by simp
    moreover have "length w + ?s \<le> length xs"
    proof -
      from t have "wordAt w xs" by (auto simp: twoWordsAt_def Let_def split: if_splits)
      then have "length w \<le> length xs" by (rule wordAt_length)
      moreover have "?s \<le> length (drop (length w) xs)"
        unfolding spaceRun_def by (rule length_takeWhile_le)
      ultimately show ?thesis by simp
    qed
    ultimately show ?thesis using n by simp
  qed
  have one: "oneWordAt w xs = Some n \<Longrightarrow> n \<le> length xs" for w
    using wordAt_length [of w xs] by (auto simp: oneWordAt_def split: if_splits)
  assume "headingLength xs = Some n"
  then show ?thesis using two one by (auto simp: headingLength_def split: option.splits)
qed

lemma sep_fun: "(\<lambda>u. inRanges u ((58, 58) # spaceRanges)) = isSeparator"
  by (rule ext) (auto simp: isSeparator_def isSpace_def inRanges_def)

lemma tail_step:
  assumes none: "\<And>z. rest z = [] \<Longrightarrow> K z = None" and some: "\<And>z. rest z \<noteq> [] \<Longrightarrow> K z \<noteq> None"
  shows "rmatch headingTail K s
         = (if length (takeWhile isSeparator (rest s)) = 0 \<or> length (rest s) \<le> 1 then None
            else K (adv (min (length (takeWhile isSeparator (rest s))) (length (rest s) - 1)) s))"
proof -
  let ?run = "length (takeWhile isSeparator (rest s))"
  let ?L = "length (rest s)"
  let ?rs = "(58, 58) # spaceRanges"
  have unf: "rmatch headingTail K s = rep (rmatch (Cls ?rs)) (1 + ?L) 1 None True K s"
    unfolding headingTail_def plus_def rmatch_Rep_cls ..
  have run: "length (takeWhile (\<lambda>u. inRanges u ?rs) (rest s)) = ?run"
    unfolding sep_fun ..
  have rl: "?run \<le> ?L" by (rule length_takeWhile_le)
  have fuel: "1 + ?L \<le> 1 + ?L" by simp
  show ?thesis
  proof (cases "?run = 0 \<or> ?L \<le> 1")
    case True
    have "rep (rmatch (Cls ?rs)) (1 + ?L) 1 None True K s = None"
      using fuel
    proof (rule greedy_none)
      show "\<forall>j. 1 \<le> j \<and> j \<le> length (takeWhile (\<lambda>u. inRanges u ?rs) (rest s)) \<longrightarrow> K (adv j s) = None"
      proof (intro allI impI)
        fix j assume j: "1 \<le> j \<and> j \<le> length (takeWhile (\<lambda>u. inRanges u ?rs) (rest s))"
        then have "?L \<le> j" using True rl unfolding run by auto
        then have "rest (adv j s) = []" by (simp add: rest_adv)
        then show "K (adv j s) = None" by (rule none)
      qed
    qed
    then show ?thesis using True unfolding unf by simp
  next
    case False
    let ?J = "min ?run (?L - 1)"
    have "rep (rmatch (Cls ?rs)) (1 + ?L) 1 None True K s = K (adv ?J s)"
      using fuel
    proof (rule greedy_last)
      show "1 \<le> ?J" using False by (auto simp: Suc_le_eq)
      show "?J \<le> length (takeWhile (\<lambda>u. inRanges u ?rs) (rest s))" unfolding run by simp
      have "?J < ?L" using False by auto
      then have "rest (adv ?J s) \<noteq> []" unfolding rest_adv drop_eq_Nil not_le .
      then show "K (adv ?J s) \<noteq> None" by (rule some)
      show "\<forall>i. ?J < i \<and> i \<le> length (takeWhile (\<lambda>u. inRanges u ?rs) (rest s)) \<longrightarrow> K (adv i s) = None"
      proof (intro allI impI)
        fix i assume i: "?J < i \<and> i \<le> length (takeWhile (\<lambda>u. inRanges u ?rs) (rest s))"
        then have "?L \<le> i" using rl unfolding run by auto
        then have "rest (adv i s) = []" by (simp add: rest_adv)
        then show "K (adv i s) = None" by (rule none)
      qed
    qed
    then show ?thesis using False unfolding unf by simp
  qed
qed

lemma workSection_attempt:
  "rmatch workSectionRegex Some st
     = (case sectionOffset (rest st) of
          None \<Rightarrow> None
        | Some n \<Rightarrow>
            Some ((adv (n + length (sectionFrom (drop n (rest st)))) st)
                    \<lparr>caps := (1, sectionFrom (drop n (rest st))) # caps st\<rparr>))"
proof -
  define K3 where "K3 = rmatch (Seq (Look sectionEnd) Eps) Some"
  define K2 where "K2 = rmatch (Grp 1 (Rep 1 None False anyUnit)) K3"
  define K1 where "K1 = rmatch headingTail K2"
  have unf: "rmatch workSectionRegex Some st = rmatch sectionHeading K1 st"
    unfolding K1_def K2_def K3_def workSectionRegex_unfold rmatch_Seq_fun ..
  have K2n: "K2 z = None" if "rest z = []" for z
    unfolding K2_def using that by (rule group_none)
  have K2s: "K2 z = Some ((adv (length (sectionFrom (rest z))) z)
                 \<lparr>caps := (1, sectionFrom (rest z)) # caps z\<rparr>)" if ne: "rest z \<noteq> []" for z
  proof -
    obtain c cs where r: "rest z = c # cs" using ne by (cases "rest z") auto
    show ?thesis unfolding K2_def K3_def group_step [OF r] r by simp
  qed
  have K2s': "K2 z \<noteq> None" if "rest z \<noteq> []" for z
    using K2s [OF that] by simp
  have K1: "K1 s = (if length (takeWhile isSeparator (rest s)) = 0 \<or> length (rest s) \<le> 1 then None
            else K2 (adv (min (length (takeWhile isSeparator (rest s))) (length (rest s) - 1)) s))" for s
    unfolding K1_def using K2n K2s' by (rule tail_step)
  show ?thesis
  proof (cases "headingLength (rest st)")
    case None
    then show ?thesis unfolding unf heading_step by (simp add: sectionOffset_def)
  next
    case (Some n)
    let ?xs = "rest st"
    let ?run = "length (takeWhile isSeparator (drop n ?xs))"
    have nl: "n \<le> length ?xs" using Some by (rule headingLength_le)
    show ?thesis
    proof (cases "?run = 0 \<or> length ?xs \<le> n + 1")
      case True
      then have "K1 (adv n st) = None" unfolding K1 rest_adv by auto
      then show ?thesis unfolding unf heading_step using Some True
        by (simp add: sectionOffset_def Let_def)
    next
      case False
      let ?J = "min ?run (length ?xs - n - 1)"
      let ?o = "min (n + ?run) (length ?xs - 1)"
      have o: "n + ?J = ?o" using False nl by auto
      have "?o < length ?xs" using False by auto
      then have ne: "rest (adv ?o st) \<noteq> []" unfolding rest_adv drop_eq_Nil not_le .
      have "K1 (adv n st) = K2 (adv ?J (adv n st))" unfolding K1 rest_adv using False by auto
      also have "\<dots> = K2 (adv ?o st)" unfolding adv_adv o ..
      also have "\<dots> = Some ((adv (length (sectionFrom (rest (adv ?o st)))) (adv ?o st))
                 \<lparr>caps := (1, sectionFrom (rest (adv ?o st))) # caps (adv ?o st)\<rparr>)"
        using ne by (rule K2s)
      finally have "K1 (adv n st) = Some ((adv (?o + length (sectionFrom (drop ?o ?xs))) st)
                 \<lparr>caps := (1, sectionFrom (drop ?o ?xs)) # caps st\<rparr>)"
        by (simp add: rest_adv adv_adv caps_adv)
      then show ?thesis unfolding unf heading_step using Some False
        by (simp add: sectionOffset_def Let_def)
    qed
  qed
qed

lemma sectionOffset_Nil: "sectionOffset [] = None"
  by (simp add: sectionOffset_def Let_def split: option.splits)

lemma search_section:
  "(case searchFrom workSectionRegex i s of None \<Rightarrow> None | Some m \<Rightarrow> matchGroup m 1)
     = sectionOfSpec s"
proof (induction s arbitrary: i)
  case Nil
  show ?case by (simp add: workSection_attempt sectionOffset_Nil del: rmatch.simps)
next
  case (Cons c cs)
  show ?case
  proof (cases "sectionOffset (c # cs)")
    case None
    then show ?thesis using Cons.IH [of "Suc i"]
      by (simp add: workSection_attempt del: rmatch.simps)
  next
    case (Some n)
    then show ?thesis
      by (simp add: workSection_attempt matchGroup_def del: rmatch.simps)
  qed
qed

lemmas spec_defs = sectionOffset_def headingLength_def twoWordsAt_def oneWordAt_def wordAt_def
  startsWith_def toLowerCase_def spaceRun_def isSpace_def inRanges_numeral spaceRanges_def
  isSeparator_def sectionStops_def sectionWords_def blankLineAt_def str_simps Let_def


section \<open>Claims\<close>

subsection \<open>C1\<close>

text \<open>
  C1 (as amended). Two periods at CompanyA, January 2018 to December 2019 and March 2018 to
  June 2018, whatever their titles: the Deduplicator returns the first alone, and the
  Interval Aggregator reports 23 months for it (the difference of the month numbers,
  December 2019 minus January 2018), not 24.
\<close>

theorem scenario_contained_period:
  assumes sp: "startDate p = newDate 2018 0" and ep: "endDate p = newDate 2019 11"
    and sq: "startDate q = newDate 2018 2" and eq: "endDate q = newDate 2018 5"
    and dp: "duration p = calculateDuration (startDate p) (endDate p)"
    and dq: "duration q = calculateDuration (startDate q) (endDate q)"
    and cp: "company p = Some (str ''CompanyA'')" and cq: "company q = Some (str ''CompanyA'')"
  shows "deduplicateEmploymentPeriods [p, q] = Inr [p] \<and> calculateTotalExperience [p] = 23"
proof -
  have dates: "startDate p = (24216, 0)" "endDate p = (24239, 0)"
    "startDate q = (24218, 0)" "endDate q = (24221, 0)"
    by (simp_all add: sp ep sq eq newDate_def)
  have durs: "duration p = 23" "duration q = 3"
    unfolding dp dq dates by (simp_all add: calculateDuration_def getFullYear_def getMonth_def)
  have ne: "periodKey p \<noteq> periodKey q"
    by (simp add: periodKey_def dates)
  have u: "map snd (uniqueByDates [p, q]) = [p, q]"
    using ne by (simp add: uniqueByDates_def uniqueStep_def)
  have ck: "companyKey p = str ''CompanyA''" "companyKey q = str ''CompanyA''"
    by (simp_all add: companyKey_def orUnknown_def truthy_def cp cq str_simps)
  have np: "str ''CompanyA'' \<notin> set objectPrototypeKeys"
    by (simp add: objectPrototypeKeys_def str_simps)
  have g: "groupAll [] [p, q] = Inr [(str ''CompanyA'', [p, q])]"
    using np by (simp add: groupStep_def ck)
  have ov: "objectValues [(str ''CompanyA'', [p, q])] = [[p, q]]"
    by (simp add: objectValues_def isArrayIndex_def isDigit_def str_simps)
  have srt: "sort_key (\<lambda>p. - duration p) [p, q] = [p, q]"
    by (simp add: durs)
  have c0: "\<not> isContained [p, q] 0"
    by (simp add: isContained_def containedIn_def dates less_eq_prod_def)
  have c1: "isContained [p, q] 1"
    by (simp add: isContained_def containedIn_def dates less_eq_prod_def)
  have pc: "processCompany [p, q] = [p]"
    using c0 c1 srt by (simp add: processCompany_def)
  have d: "deduplicateEmploymentPeriods [p, q] = Inr [p]"
    unfolding deduplicateEmploymentPeriods_def u g by (simp add: ov pc)
  have t: "calculateTotalExperience [p] = 23"
    by (simp add: calculateTotalExperience_def calculateDuration_def dates
        getFullYear_def getMonth_def less_prod_def)
  show ?thesis using d t by simp
qed

text \<open>The scenario on the two sample periods.\<close>

theorem scenario_contained_period_witness: "deduplicateEmploymentPeriods [periodA, periodB] = Inr [periodA]
   \<and> calculateTotalExperience [periodA] = 23"
  using scenario_contained_period [of periodA periodB] by (simp add: sample_defs)

text \<open>C1 as stated fails: the reported total of the scenario is not 24.\<close>

theorem scenario_total_counterexample:
  "deduplicateEmploymentPeriods [periodA, periodB] = Inr [periodA]
   \<and> calculateTotalExperience [periodA] \<noteq> 24"
  by code_simp

subsection \<open>C2\<close>

text \<open>
  C2. The level loop starts from 2 and only ever takes a maximum, so the entry
  \<open>junior = 1\<close> of the table never takes effect: a title whose only matching word is
  "junior" is given level 2, and no title is given a level below 2. A career from
  "junior developer" to "developer" is therefore reported as "Stable", without
  progression.
\<close>

theorem junior_level_is_two:
  "levelScore (str ''junior developer'') = 2
   \<and> map level (titleProgression [juniorJob, developerJob]) = [2, 2]
   \<and> pattern (analyzeCareerProgression [juniorJob, developerJob]) = str ''Stable''
   \<and> hasProgression (analyzeCareerProgression [juniorJob, developerJob]) = False
   \<and> (\<forall>t. 2 \<le> levelScore t)"
proof (intro conjI)
  show "levelScore (str ''junior developer'') = 2" by code_simp
  show "map level (titleProgression [juniorJob, developerJob]) = [2, 2]" by code_simp
  show "pattern (analyzeCareerProgression [juniorJob, developerJob]) = str ''Stable''"
    by code_simp
  show "hasProgression (analyzeCareerProgression [juniorJob, developerJob]) = False"
    by code_simp
  have "2 \<le> acc \<Longrightarrow>
      2 \<le> foldl (\<lambda>score (levelTitle, s). if includesStr t levelTitle then max score s else score) acc xs"
    for t and acc :: int and xs
    by (induction xs arbitrary: acc) auto
  then show "\<forall>t. 2 \<le> levelScore t" by (simp add: levelScore_def)
qed

subsection \<open>C3\<close>

text \<open>
  C3 (as amended). For a list of zero or one period the pattern is "Insufficient data";
  for every longer list it is "Stable", "Upward" or "Varied", alone or followed by
  ", Frequent changes".
\<close>

theorem progression_pattern_values: "pattern (analyzeCareerProgression ps) \<in>
   (if length ps \<le> 1 then {str ''Insufficient data''}
    else {str ''Stable'', str ''Upward'', str ''Varied'',
          str ''Stable'' @ str '', Frequent changes'', str ''Upward'' @ str '', Frequent changes'',
          str ''Varied'' @ str '', Frequent changes''})"
  by (simp add: analyzeCareerProgression_def Let_def split: prod.splits)

text \<open>Both cases on sample lists: two periods, and one.\<close>

theorem progression_pattern_values_witness: "pattern (analyzeCareerProgression [periodA, periodC]) \<in> {str ''Stable'', str ''Upward'', str ''Varied'',
          str ''Stable'' @ str '', Frequent changes'', str ''Upward'' @ str '', Frequent changes'',
          str ''Varied'' @ str '', Frequent changes''} \<and> pattern (analyzeCareerProgression [periodA]) = str ''Insufficient data''"
  using progression_pattern_values [of "[periodA, periodC]"]
    progression_pattern_values [of "[periodA]"] by simp

text \<open>C3 as stated fails on the empty list.\<close>

theorem progression_pattern_counterexample: "pattern (analyzeCareerProgression []) \<notin>
   {str ''Stable'', str ''Upward'', str ''Varied'',
          str ''Stable'' @ str '', Frequent changes'', str ''Upward'' @ str '', Frequent changes'',
          str ''Varied'' @ str '', Frequent changes''}"
  by (simp add: analyzeCareerProgression_def str_simps)

subsection \<open>C4\<close>

text \<open>
  C4 (as amended). For every text, the slice that the Entry Extractor takes as the
  work-experience section is the one that \<open>sectionOfSpec\<close> describes. The heading is
  the leftmost occurrence of one of the phrases work experience, employment, professional
  experience and work history (in any letter case, the two words of a phrase separated by
  one or more white-space units) that is directly followed by a colon or a white-space
  unit and by at least one more unit; if there is none, there is no section and the
  extractor returns no entries. The section starts after the longest run of colons and
  white-space units that follows the heading, or, when that run reaches the end of the
  text, with the last unit of the text. It extends up to the first position after its
  first unit at which one of the words education, skills, certification, language or
  hobbies begins (in any letter case), at which a blank line begins (a line feed
  followed, after white-space units only, by another line feed), or at which the text
  ends. Every unit from its start up to that position belongs to the section, and it is
  the lines of this slice that the extractor parses.
\<close>

theorem work_section_extent:
  "workSectionText text = sectionOfSpec text
   \<and> extractStructuredEmploymentEntries now text
       = (case sectionOfSpec text of
            None \<Rightarrow> Inr []
          | Some workText \<Rightarrow>
              entriesOfLines now (filter (\<lambda>line. length (trim line) > 0) (splitOn 10 workText)) [])"
proof -
  have t: "workSectionText text = sectionOfSpec text"
    unfolding workSectionText_def matchRegex_def by (rule search_section)
  have "extractStructuredEmploymentEntries now text
       = (case sectionOfSpec text of
            None \<Rightarrow> Inr []
          | Some workText \<Rightarrow>
              entriesOfLines now (filter (\<lambda>line. length (trim line) > 0) (splitOn 10 workText)) [])"
  proof (cases "matchRegex workSectionRegex text")
    case None
    then have "sectionOfSpec text = None" using t by (simp add: workSectionText_def)
    then show ?thesis using None by (simp add: extractStructuredEmploymentEntries_def)
  next
    case (Some m)
    from group_defined [OF Some sure_workSection] obtain w where w: "matchGroup m 1 = Some w"
      by blast
    then have "sectionOfSpec text = Some w" using t Some by (simp add: workSectionText_def)
    then show ?thesis using Some w by (simp add: extractStructuredEmploymentEntries_def)
  qed
  then show ?thesis using t by simp
qed

text \<open>
  Four texts: the sample text, whose section is the first entry line, ended by the empty
  line; a heading with a single word after it; a heading whose run of colon and line feed
  reaches the end of the text, so that the line feed is the section; and a heading with
  nothing after its colon, which gives no section.
\<close>

theorem work_section_extent_witness:
  "workSectionText blankLineResume = Some (str ''Developer | Acme | 01/2020 - 02/2021'')
   \<and> workSectionText (str ''Work Experience: x'') = Some (str ''x'')
   \<and> workSectionText (str ''Work Experience:'' @ [10]) = Some [10]
   \<and> workSectionText (str ''Work Experience:'') = None"
proof -
  have "sectionOfSpec blankLineResume = Some (str ''Developer | Acme | 01/2020 - 02/2021'')"
    by (simp add: spec_defs blankLineResume_def)
  moreover have "sectionOfSpec (str ''Work Experience: x'') = Some (str ''x'')"
    by (simp add: spec_defs)
  moreover have "sectionOfSpec (str ''Work Experience:'' @ [10]) = Some [10]"
    by (simp add: spec_defs)
  moreover have "sectionOfSpec (str ''Work Experience:'') = None"
    by (simp add: spec_defs)
  ultimately show ?thesis
    using work_section_extent [of blankLineResume] work_section_extent [of "str ''Work Experience: x''"]
      work_section_extent [of "str ''Work Experience:'' @ [10]"]
      work_section_extent [of "str ''Work Experience:''"]
    by simp
qed

text \<open>
  C4 as stated fails: in this text no later heading word occurs, and yet the section
  stops at the empty line, before the second entry and long before the end of the text.
\<close>

theorem work_section_counterexample:
  "workSectionText blankLineResume = Some (str ''Developer | Acme | 01/2020 - 02/2021'')
   \<and> \<not> hasSectionWord blankLineResume
   \<and> length (str ''Work Experience:'' @ [10] @ str ''Developer | Acme | 01/2020 - 02/2021'')
       < length blankLineResume"
proof -
  have "\<not> hasSectionWord blankLineResume"
    by (simp add: hasSectionWord_def blankLineResume_def sectionWords_def toLowerCase_def
        str_simps startsWith_def)
  moreover have "length (str ''Work Experience:'' @ [10] @ str ''Developer | Acme | 01/2020 - 02/2021'')
       < length blankLineResume"
    by (simp add: blankLineResume_def str_def)
  ultimately show ?thesis using blank_line_section by simp
qed

subsection \<open>C5\<close>

text \<open>
  C5 (as amended). For periods that each start no later than they end, the total
  experience is at most the sum of the durations, and equals it exactly when no two
  periods of the list share months, that is, when for every two of them the later of the
  two start months is not before the earlier of the two end months.
\<close>

theorem total_experience_le_sum:
  assumes "\<forall>p\<in>set ps. startDate p \<le> endDate p"
  shows "calculateTotalExperience ps \<le> sumDurations ps \<and>
         (calculateTotalExperience ps = sumDurations ps \<longleftrightarrow> noSharedMonths ps)"
proof (cases "sort_key startDate ps")
  case Nil
  then have "ps = []" by (metis length_sort length_0_conv)
  then show ?thesis by (simp add: calculateTotalExperience_def sumDurations_def)
next
  case (Cons first rest)
  let ?xs = "first # rest"
  have xs: "sort_key startDate ps = ?xs" using Cons .
  have valid: "\<forall>p\<in>set ?xs. startDate p \<le> endDate p"
    using assms xs by (metis set_sort)
  have "sorted (map startDate ?xs)" using xs by (metis sorted_sort_key)
  then have srt: "sorted (map (\<lambda>p. fst (startDate p)) ?xs)"
    by (rule sorted_startDate_months)
  then have first: "\<forall>p\<in>set ?xs. \<not> (fst (startDate p) < fst (startDate first)
                         \<and> fst (startDate p) < fst (endDate p))"
    by auto
  have tot: "calculateTotalExperience ps = totalLoop ?xs (startDate first) 0"
    by (simp add: calculateTotalExperience_def xs)
  have sd: "sumDurations ?xs = sumDurations ps"
    using sumDurations_sort [of startDate ps] xs by simp
  have no: "noSharedMonths ?xs = noSharedMonths ps"
    using noSharedMonths_sort [of startDate ps] xs by simp
  show ?thesis
    using totalLoop_le_iff [OF valid srt, of "startDate first" 0] first tot sd no by auto
qed

text \<open>Two sample lists: one with an overlap, where the total is smaller, and one without.\<close>

theorem total_experience_le_sum_witness:
  "startDate periodA \<le> endDate periodA \<and> startDate periodB \<le> endDate periodB
   \<and> startDate periodC \<le> endDate periodC
   \<and> calculateTotalExperience [periodA, periodB] < sumDurations [periodA, periodB]
   \<and> \<not> noSharedMonths [periodA, periodB]
   \<and> calculateTotalExperience [periodA, periodC] = sumDurations [periodA, periodC]
   \<and> noSharedMonths [periodA, periodC]"
proof -
  have v1: "\<forall>p\<in>set [periodA, periodB]. startDate p \<le> endDate p"
    by (simp add: sample_defs newDate_def less_eq_prod_def)
  have v2: "\<forall>p\<in>set [periodA, periodC]. startDate p \<le> endDate p"
    by (simp add: sample_defs newDate_def less_eq_prod_def)
  have o1: "\<not> noSharedMonths [periodA, periodB]"
    by (simp add: sample_defs newDate_def shareMonths_def monthIndex_fst)
  have o2: "noSharedMonths [periodA, periodC]"
    by (simp add: sample_defs newDate_def shareMonths_def monthIndex_fst)
  show ?thesis
    using total_experience_le_sum [OF v1] total_experience_le_sum [OF v2] v1 v2 o1 o2
    by simp
qed

text \<open>
  C5 as stated fails: a period of a single month lies strictly inside another period, and
  a period that began on the first of the current month lies inside one that began years
  ago and runs to the same moment. In both lists the two periods overlap, and yet the
  total equals the sum of the durations.
\<close>

theorem total_experience_counterexample:
  "startDate periodA < startDate periodD \<and> endDate periodD < endDate periodA
   \<and> startDate periodA \<le> endDate periodA \<and> startDate periodD \<le> endDate periodD
   \<and> calculateTotalExperience [periodA, periodD] = sumDurations [periodA, periodD]
   \<and> startDate currentJob < startDate latestJob \<and> startDate latestJob < endDate latestJob
   \<and> endDate latestJob = endDate currentJob
   \<and> calculateTotalExperience [currentJob, latestJob] = sumDurations [currentJob, latestJob]"
  by (simp add: sample_defs sampleNow_def newDate_def less_eq_prod_def less_prod_def
      calculateTotalExperience_def sumDurations_def calculateDuration_def
      getFullYear_def getMonth_def)

subsection \<open>C6\<close>

text \<open>
  C6. Whenever the Deduplicator returns a list, running it again on that list returns
  the same periods, each as often as before: nothing more is removed or collapsed.
\<close>

theorem dedup_idempotent:
  assumes "deduplicateEmploymentPeriods ps = Inr out"
  shows "\<exists>out'. deduplicateEmploymentPeriods out = Inr out' \<and> mset out' = mset out"
proof (cases "length out \<le> 1")
  case True
  then show ?thesis by (simp add: dedup_small)
next
  case False
  then have big: "\<not> length ps \<le> 1" using assms by (auto simp: dedup_small)
  from dedup_char [OF big assms] have d: "distinct out" by simp
  have vals: "map snd (uniqueByDates out) = out"
    using dedup_distinct_keys [OF big assms] by (rule uniqueByDates_id)
  from big assms obtain obj where obj: "groupAll [] (map snd (uniqueByDates ps)) = Inr obj"
    by (auto simp: deduplicateEmploymentPeriods_def split: sum.splits)
  have "\<forall>p\<in>set out. companyKey p \<notin> set objectPrototypeKeys"
    using groupAll_keys_ok [OF obj] dedup_char [OF big assms] by (auto simp: survivors_def)
  then obtain obj' where "groupAll [] out = Inr obj'" using groupAll_ok by blast
  then obtain out' where out': "deduplicateEmploymentPeriods out = Inr out'"
    using False vals by (simp add: deduplicateEmploymentPeriods_def)
  from dedup_char [OF False out'] vals
  have s': "set out' = survivors (set out)" and d': "distinct out'" by auto
  have "survivors (set out) = set out"
    using dedup_no_containment [OF assms] by (auto simp: survivors_def)
  then have "set out' = set out" using s' by simp
  then have "mset out' = mset out" using d d' by (simp add: set_eq_iff_mset_eq_distinct)
  then show ?thesis using out' by simp
qed

text \<open>Three periods of one company, of which the second run keeps the two that the first kept.\<close>

theorem dedup_idempotent_witness:
  "deduplicateEmploymentPeriods [periodA, periodB, periodC] = Inr [periodA, periodC]
   \<and> (\<exists>out'. deduplicateEmploymentPeriods [periodA, periodC] = Inr out'
         \<and> mset out' = mset [periodA, periodC])"
proof -
  have d: "deduplicateEmploymentPeriods [periodA, periodB, periodC] = Inr [periodA, periodC]"
    by code_simp
  show ?thesis using dedup_idempotent [OF d] d by simp
qed

subsection \<open>C7\<close>

text \<open>
  C7. For the entries of the structured extractor, and for any periods that each start
  no later than they end, every period the Deduplicator returns starts no later than it
  ends, and no returned period lies within the interval of another returned period of
  the same company group (strictly or not).
\<close>

theorem dedup_invariant:
  assumes "extractStructuredEmploymentEntries now text = Inr ps
           \<or> (\<forall>p\<in>set ps. startDate p \<le> endDate p)"
    and "deduplicateEmploymentPeriods ps = Inr out"
  shows "(\<forall>p\<in>set out. startDate p \<le> endDate p)
         \<and> (\<forall>p\<in>set out. \<forall>q\<in>set out.
               p \<noteq> q \<and> companyKey p = companyKey q \<longrightarrow> \<not> containedIn p q)"
proof -
  have "\<forall>p\<in>set ps. startDate p \<le> endDate p"
    using assms(1) extract_ok [of now "text"] by auto
  then have "\<forall>p\<in>set out. startDate p \<le> endDate p"
    using assms(2) by (rule dedup_keeps_valid [rotated])
  then show ?thesis using dedup_no_containment [OF assms(2)] by blast
qed

text \<open>The same three periods: the two that are kept do not contain each other.\<close>

theorem dedup_invariant_witness:
  "deduplicateEmploymentPeriods [periodA, periodB, periodC] = Inr [periodA, periodC]
   \<and> startDate periodA \<le> endDate periodA \<and> startDate periodB \<le> endDate periodB
   \<and> startDate periodC \<le> endDate periodC
   \<and> \<not> containedIn periodA periodC \<and> \<not> containedIn periodC periodA"
proof -
  have d: "deduplicateEmploymentPeriods [periodA, periodB, periodC] = Inr [periodA, periodC]"
    by code_simp
  have v: "startDate periodA \<le> endDate periodA" "startDate periodB \<le> endDate periodB"
    "startDate periodC \<le> endDate periodC"
    by (simp_all add: sample_defs newDate_def less_eq_prod_def)
  have ne: "periodA \<noteq> periodC" by (simp add: sample_defs newDate_def)
  have ck: "companyKey periodA = companyKey periodC" by (simp add: sample_defs companyKey_def)
  have "extractStructuredEmploymentEntries sampleNow [] = Inr [periodA, periodB, periodC]
           \<or> (\<forall>p\<in>set [periodA, periodB, periodC]. startDate p \<le> endDate p)"
    using v by simp
  from dedup_invariant [OF this d] ne ck
  have "\<not> containedIn periodA periodC \<and> \<not> containedIn periodC periodA" by auto
  then show ?thesis using d v by simp
qed

subsection \<open>C8\<close>

text \<open>
  C8. The entry parser returns an entry or none and never raises; an entry it returns
  starts no later than it ends, so a pair with the start after the end yields none, and
  a date range that the pattern does not match yields none. The same holds of a line
  and of the whole extraction; and a line that yields no entry leaves the entries of
  the lines around it as they are without it.
\<close>

theorem parser_never_raises:
  "(parseEmploymentEntry now position companyName dateRange = Inr None
      \<or> (\<exists>e. parseEmploymentEntry now position companyName dateRange = Inr (Some e)
               \<and> startDate e \<le> endDate e))
   \<and> (matchRegex dateRangeRegex dateRange = None
         \<longrightarrow> parseEmploymentEntry now position companyName dateRange = Inr None)
   \<and> (processLine now line = Inr None
         \<or> (\<exists>e. processLine now line = Inr (Some e) \<and> startDate e \<le> endDate e))
   \<and> (\<exists>es. entriesOfLines now lines acc = Inr es)
   \<and> (processLine now line = Inr None
         \<longrightarrow> entriesOfLines now (before @ line # after) acc
               = entriesOfLines now (before @ after) acc)
   \<and> (\<exists>es. extractStructuredEmploymentEntries now text = Inr es)"
proof (intro conjI)
  show "parseEmploymentEntry now position companyName dateRange = Inr None
      \<or> (\<exists>e. parseEmploymentEntry now position companyName dateRange = Inr (Some e)
               \<and> startDate e \<le> endDate e)"
    using parse_cases [of now position companyName dateRange] by blast
  show "matchRegex dateRangeRegex dateRange = None
         \<longrightarrow> parseEmploymentEntry now position companyName dateRange = Inr None"
    by (simp add: parseEmploymentEntry_def)
  show "processLine now line = Inr None
         \<or> (\<exists>e. processLine now line = Inr (Some e) \<and> startDate e \<le> endDate e)"
    by (rule processLine_cases)
  show "\<exists>es. entriesOfLines now lines acc = Inr es"
    using entriesOfLines_ok [of now lines acc] by blast
  show "processLine now line = Inr None
         \<longrightarrow> entriesOfLines now (before @ line # after) acc
               = entriesOfLines now (before @ after) acc"
    using entriesOfLines_skip by blast
  show "\<exists>es. extractStructuredEmploymentEntries now text = Inr es"
    using extract_ok [of now "text"] by blast
qed

text \<open>A date range without a date, a range that ends before it starts, and a line between two others that yields no entry.\<close>

theorem parser_never_raises_witness:
  "matchRegex dateRangeRegex (str ''sometime soon'') = None
   \<and> parseEmploymentEntry sampleNow (str ''Developer'') (str ''Acme'') (str ''sometime soon'') = Inr None
   \<and> parseEmploymentEntry sampleNow (str ''Developer'') (str ''Acme'') (str ''05/2021 - 02/2021'') = Inr None
   \<and> processLine sampleNow (str ''Developer | Acme | sometime soon'') = Inr None
   \<and> entriesOfLines sampleNow
        ([str ''Lead | Initech | 03/2021 - 04/2022''] @ str ''Developer | Acme | sometime soon''
           # [str ''Intern | Hooli | 01/2019 - 06/2019'']) []
      = entriesOfLines sampleNow
        ([str ''Lead | Initech | 03/2021 - 04/2022''] @ [str ''Intern | Hooli | 01/2019 - 06/2019'']) []"
proof -
  have m: "matchRegex dateRangeRegex (str ''sometime soon'') = None"
    by (simp add: dateRangeRegex_def namedDate_def numericDate_def monthPrefix_def
        separatorUnit_def sym_defs)
  have l: "processLine sampleNow (str ''Developer | Acme | sometime soon'') = Inr None"
    by (simp add: processLine_def tryFormat_def pipeFormat_def atFormat_def commaFormat_def
        parseEmploymentEntry_def dateRangeRegex_def namedDate_def numericDate_def monthPrefix_def
        separatorUnit_def trim_def isSpace_def startsWith_def sym_defs inRanges_def)
  have i: "parseEmploymentEntry sampleNow (str ''Developer'') (str ''Acme'') (str ''05/2021 - 02/2021'')
      = Inr None"
    by (simp add: parseEmploymentEntry_def dateRangeRegex_def namedDate_def numericDate_def
        monthPrefix_def separatorUnit_def numericDateOnly_def presentRegex_def readNumericDate_def
        elemAt_def parseInt_def parseUnsigned_def newDateOpt_def newDate_def isDigit_def
        decimalValue_def truthy_def isSpace_def startsWith_def sym_defs inRanges_def less_prod_def)
  show ?thesis
    using parser_never_raises [of sampleNow "str ''Developer''" "str ''Acme''" "str ''sometime soon''"
        "str ''Developer | Acme | sometime soon''" "[]" "[]"
        "[str ''Lead | Initech | 03/2021 - 04/2022'']" "[str ''Intern | Hooli | 01/2019 - 06/2019'']" "[]"]
      m l i
    by simp
qed

subsection \<open>C9\<close>




subsection \<open>C10\<close>

text \<open>
  C10 (as amended). Two periods of the same company with the same start and end dates,
  whose titles are different when a missing or empty title is read as \<open>unknown\<close> (and a
  missing or empty company likewise), in an input where no period of another company
  has the start date, end date and title, read that way, of either of them: neither is
  in the list that the Deduplicator returns.
\<close>

theorem equal_intervals_both_removed:
  assumes "p \<in> set ps" and "q \<in> set ps"
    and "companyKey p = companyKey q"
    and "startDate p = startDate q" and "endDate p = endDate q"
    and "orUnknown (jobTitle p) \<noteq> orUnknown (jobTitle q)"
    and oth: "\<forall>r\<in>set ps. periodKey r = periodKey p \<or> periodKey r = periodKey q
                \<longrightarrow> companyKey r = companyKey p"
    and res: "deduplicateEmploymentPeriods ps = Inr out"
  shows "p \<notin> set out \<and> q \<notin> set out"
proof -
  let ?V = "set (map snd (uniqueByDates ps))"
  have nk: "periodKey p \<noteq> periodKey q" using assms(6) by (auto simp: periodKey_def)
  then have ne: "p \<noteq> q" by auto
  from uniqueByDates_key_kept [OF assms(1)] obtain x where
    x: "x \<in> ?V" "periodKey x = periodKey p" "x \<in> set ps" by blast
  from uniqueByDates_key_kept [OF assms(2)] obtain y where
    y: "y \<in> ?V" "periodKey y = periodKey q" "y \<in> set ps" by blast
  have cx: "companyKey x = companyKey p" using oth x(2,3) by blast
  have cy: "companyKey y = companyKey p" using oth y(2,3) by blast
  have dx: "startDate x = startDate p" "endDate x = endDate p"
    using x(2) by (simp_all add: periodKey_def)
  have dy: "startDate y = startDate p" "endDate y = endDate p"
    using y(2) assms(4,5) by (simp_all add: periodKey_def)
  have big: "\<not> length ps \<le> 1"
  proof
    assume "length ps \<le> 1"
    then have "ps = [] \<or> (\<exists>z. ps = [z])" by (cases ps) auto
    then show False using assms(1,2) ne by auto
  qed
  from dedup_char [OF big res] have out: "set out = survivors ?V" by simp
  have yp: "y \<noteq> p" using y(2) nk by auto
  have xq: "x \<noteq> q" using x(2) nk by auto
  have "containedIn p y" using dy by (simp add: containedIn_def)
  then have "p \<notin> survivors ?V" using y(1) yp cy by (auto simp: survivors_def)
  moreover have "containedIn q x" using dx assms(4,5) by (simp add: containedIn_def)
  then have "q \<notin> survivors ?V" using x(1) xq cx assms(3) by (auto simp: survivors_def)
  ultimately show ?thesis using out by simp
qed

text \<open>
  Two stints of one company with equal dates and different titles beside an earlier
  period of that company: only that period is kept.
\<close>

theorem equal_intervals_both_removed_witness:
  "deduplicateEmploymentPeriods [periodA, stintP, stintQ] = Inr [periodA]
   \<and> companyKey stintP = companyKey stintQ
   \<and> orUnknown (jobTitle stintP) \<noteq> orUnknown (jobTitle stintQ)
   \<and> startDate stintP = startDate stintQ \<and> endDate stintP = endDate stintQ
   \<and> companyKey periodA = companyKey stintP
   \<and> stintP \<notin> set [periodA] \<and> stintQ \<notin> set [periodA]"
proof -
  have d: "deduplicateEmploymentPeriods [periodA, stintP, stintQ] = Inr [periodA]"
    by code_simp
  have c: "companyKey stintP = companyKey stintQ" "companyKey periodA = companyKey stintP"
    by (simp_all add: sample_defs companyKey_def)
  have t: "orUnknown (jobTitle stintP) \<noteq> orUnknown (jobTitle stintQ)"
    by (simp add: sample_defs orUnknown_def truthy_def str_simps)
  have s: "startDate stintP = startDate stintQ" "endDate stintP = endDate stintQ"
    by (simp_all add: sample_defs)
  have "stintP \<notin> set [periodA] \<and> stintQ \<notin> set [periodA]"
  proof (rule equal_intervals_both_removed [of stintP "[periodA, stintP, stintQ]" stintQ])
    show "stintP \<in> set [periodA, stintP, stintQ]" by simp
    show "stintQ \<in> set [periodA, stintP, stintQ]" by simp
    show "companyKey stintP = companyKey stintQ" by (rule c)
    show "startDate stintP = startDate stintQ" by (rule s)
    show "endDate stintP = endDate stintQ" by (rule s)
    show "orUnknown (jobTitle stintP) \<noteq> orUnknown (jobTitle stintQ)" by (rule t)
    show "\<forall>r\<in>set [periodA, stintP, stintQ].
            periodKey r = periodKey stintP \<or> periodKey r = periodKey stintQ
            \<longrightarrow> companyKey r = companyKey stintP"
      using c by simp
    show "deduplicateEmploymentPeriods [periodA, stintP, stintQ] = Inr [periodA]" by (rule d)
  qed
  then show ?thesis using d c t s by simp
qed

text \<open>
  C10 as stated fails: an earlier period of another company with the dates and title of
  the first stint takes its place in the first pass, and the second stint, then alone in
  its company, is kept.
\<close>

theorem equal_intervals_counterexample:
  "company stintP = company stintQ \<and> startDate stintP = startDate stintQ
   \<and> endDate stintP = endDate stintQ \<and> jobTitle stintP \<noteq> jobTitle stintQ
   \<and> deduplicateEmploymentPeriods [stintR, stintP, stintQ] = Inr [stintR, stintQ]"
  by code_simp

end
